theory Spec2Isabelle
  imports Complex_Main
begin



section \<open>Strings as the validation code sees them\<close>

text \<open>
  A JavaScript string is modelled as a \<^typ>\<open>string\<close>, read as a sequence of 8-bit code
  units. Every character that the validation accepts is ASCII, so nothing that reaches a
  loader lies outside this range.
\<close>

definition in_range :: "char \<Rightarrow> char \<Rightarrow> char \<Rightarrow> bool" where
  "in_range lo hi c = ((of_char lo :: nat) \<le> of_char c \<and> (of_char c :: nat) \<le> of_char hi)"

text \<open>White space removed by \<^verbatim>\<open>String.prototype.trim\<close>: TAB, LF, VT, FF, CR, SP and NBSP.\<close>

definition is_whitespace :: "char \<Rightarrow> bool" where
  "is_whitespace c = (in_range (CHR 0x09) (CHR 0x0D) c \<or> c = CHR 0x20 \<or> c = CHR 0xA0)"

definition trim :: "string \<Rightarrow> string" where
  "trim s = rev (dropWhile is_whitespace (rev (dropWhile is_whitespace s)))"

text \<open>Case folding of a regular expression with the \<^verbatim>\<open>i\<close> flag, on ASCII letters.\<close>

definition ascii_lower :: "char \<Rightarrow> char" where
  "ascii_lower c = (if in_range (CHR ''A'') (CHR ''Z'') c then char_of (of_char c + (32 :: nat)) else c)"

definition starts_with :: "string \<Rightarrow> string \<Rightarrow> bool" where
  "starts_with s p = (take (length p) s = p)"

definition starts_with_ci :: "string \<Rightarrow> string \<Rightarrow> bool" where
  "starts_with_ci s p = (map ascii_lower (take (length p) s) = p)"

fun includes_str :: "string \<Rightarrow> string \<Rightarrow> bool" where
  "includes_str [] sub = (sub = [])"
| "includes_str (c # cs) sub = (starts_with (c # cs) sub \<or> includes_str cs sub)"

text \<open>\<^verbatim>\<open>/^(javascript|data|file|ftp|blob):/i\<close>\<close>

definition dangerous_protocol :: "string \<Rightarrow> bool" where
  "dangerous_protocol s =
     (starts_with_ci s ''javascript:'' \<or> starts_with_ci s ''data:'' \<or> starts_with_ci s ''file:''
      \<or> starts_with_ci s ''ftp:'' \<or> starts_with_ci s ''blob:'')"

text \<open>\<^verbatim>\<open>/^https?:\/\//\<close>\<close>

definition http_prefix :: "string \<Rightarrow> bool" where
  "http_prefix s = (starts_with s ''http://'' \<or> starts_with s ''https://'')"

text \<open>The character class \<^verbatim>\<open>[a-zA-Z0-9\-._~:/?#[\]@!$&'()*+,;=%]\<close>.\<close>

definition url_char :: "char \<Rightarrow> bool" where
  "url_char c =
     (in_range (CHR ''a'') (CHR ''z'') c \<or> in_range (CHR ''A'') (CHR ''Z'') c
      \<or> in_range (CHR ''0'') (CHR ''9'') c
      \<or> c \<in> set (''-._~:/?#[]@!$&()*+,;=%'' @ [CHR 0x27]))"

text \<open>\<^verbatim>\<open>/^[...]+$/\<close>: one or more characters, all of the class.\<close>

definition url_chars_only :: "string \<Rightarrow> bool" where
  "url_chars_only s = (s \<noteq> [] \<and> list_all url_char s)"


section \<open>Input validation (index.ts)\<close>

text \<open>
  \<^verbatim>\<open>ResourceInput\<close> is declared as \<^verbatim>\<open>string\<close>; untyped callers also pass
  \<^verbatim>\<open>null\<close> and \<^verbatim>\<open>undefined\<close>, which the first guard of
  \<^verbatim>\<open>resolveResourceUrl\<close> answers.
\<close>

datatype resource_input = Str string | NotAString

datatype resources_arg = Single resource_input | Many "resource_input list"

definition resolveResourceUrl :: "resource_input \<Rightarrow> string option" where
  "resolveResourceUrl resource =
     (case resource of
        NotAString \<Rightarrow> None
      | Str s \<Rightarrow>
          if s = [] then None
          else let trimmed = trim s in
            if trimmed = [] then None
            else if dangerous_protocol trimmed then None
            else if includes_str trimmed ''://'' \<and> \<not> http_prefix trimmed then None
            else if \<not> url_chars_only trimmed then None
            else Some trimmed)"

definition prepareResourcesForLoading :: "resources_arg \<Rightarrow> string list" where
  "prepareResourcesForLoading resources =
     (let resourceArray = (case resources of Many rs \<Rightarrow> rs | Single r \<Rightarrow> [r])
      in map the (filter (\<lambda>url. url \<noteq> None) (map resolveResourceUrl resourceArray)))"


section \<open>Errors, callbacks and the diagnostic channel (core module)\<close>

text \<open>
  The core module is the second half of \<^verbatim>\<open>src/src/loaders.ts\<close>: \<^verbatim>\<open>handleError\<close>,
  \<^verbatim>\<open>loadSingleAsset\<close>, \<^verbatim>\<open>loadAssetsBatch\<close> and the idle scheduler.
\<close>

text \<open>A JavaScript \<^verbatim>\<open>Error\<close> with its message; also what a faulty callback throws.\<close>

datatype js_error = JsError string

text \<open>
  The caller's \<^verbatim>\<open>onError(url, error)\<close> either returns or throws; nothing else of it is
  visible to the loader.
\<close>

datatype callback_result = Returns | Throws js_error

type_synonym on_error = "string \<Rightarrow> js_error \<Rightarrow> callback_result"

record load_options =
  batchSize :: "int option"
  timeout :: "nat option"
  onError :: "on_error option"

datatype load_strategy = Immediate | Idle

record load_resources_options = load_options +
  strategy :: "load_strategy option"

datatype timer_callback =
    FallbackIdle   \<comment> \<open>the 50 ms fallback of \<^verbatim>\<open>scheduleIdleWork\<close>\<close>
  | Reschedule     \<comment> \<open>\<^verbatim>\<open>() => scheduleIdleWork()\<close>, set by the hidden-page deferral\<close>

text \<open>
  What the program does to its environment, in the order it does it. \<open>LoadStarted n url\<close> is
  the call \<^verbatim>\<open>loadByType(url)\<close> of the \<open>n\<close>-th load of an invocation (the index into
  \<^verbatim>\<open>urls\<close> in \<^verbatim>\<open>loadAssetsBatch\<close>, \<^verbatim>\<open>processedCount\<close> in a processing cycle);
  \<open>LoadSettled n r\<close> marks the moment the promise of that \<^verbatim>\<open>loadSingleAsset\<close> call
  settles.
\<close>

datatype event =
    WarnLoadFailed string js_error      \<comment> \<open>\<^verbatim>\<open>console.warn(`Resource load failed: ${url}`, error)\<close>\<close>
  | WarnCallbackError js_error          \<comment> \<open>\<^verbatim>\<open>console.warn('Error in user callback:', callbackError)\<close>\<close>
  | WarnImmediateFailed js_error        \<comment> \<open>\<^verbatim>\<open>console.warn('[system] Immediate load failed:', error)\<close>\<close>
  | WarnIdleFailed js_error             \<comment> \<open>\<^verbatim>\<open>console.warn('Idle processing failed:', error)\<close>\<close>
  | OnErrorCalled string js_error       \<comment> \<open>\<^verbatim>\<open>userCallback(url, error)\<close> is entered\<close>
  | LoadStarted nat string
  | LoadSettled nat "js_error + unit"
  | FlagWrite bool                      \<comment> \<open>an assignment to \<^verbatim>\<open>isIdleProcessing\<close>\<close>
  | IdleCallbackRequested               \<comment> \<open>\<^verbatim>\<open>requestIdleCallback(...)\<close>\<close>
  | TimerSet nat timer_callback         \<comment> \<open>\<^verbatim>\<open>setTimeout(callback, delay)\<close> of the scheduler\<close>

text \<open>
  A computation is the events it emits and how it completes: \<open>Inl e\<close> when it throws \<open>e\<close>
  (for a promise: rejects with \<open>e\<close>), \<open>Inr v\<close> when it returns \<open>v\<close> (is fulfilled).
\<close>

type_synonym 'a comp = "event list \<times> (js_error + 'a)"

text \<open>\<^verbatim>\<open>try { body } catch (e) { handler(e) }\<close>, and \<^verbatim>\<open>promise.catch(handler)\<close>.\<close>

definition try_catch :: "'a comp \<Rightarrow> (js_error \<Rightarrow> 'a comp) \<Rightarrow> 'a comp" where
  "try_catch body handler =
     (case snd body of
        Inr v \<Rightarrow> body
      | Inl e \<Rightarrow> (fst body @ fst (handler e), snd (handler e)))"

text \<open>\<^verbatim>\<open>first; second\<close>: the second statement runs only when the first did not throw.\<close>

definition and_then :: "'a comp \<Rightarrow> 'b comp \<Rightarrow> 'b comp" where
  "and_then first second =
     (case snd first of
        Inl e \<Rightarrow> (fst first, Inl e)
      | Inr v \<Rightarrow> (fst first @ fst second, snd second))"

definition call_callback :: "on_error \<Rightarrow> string \<Rightarrow> js_error \<Rightarrow> unit comp" where
  "call_callback userCallback url error =
     ([OnErrorCalled url error],
      case userCallback url error of Returns \<Rightarrow> Inr () | Throws callbackError \<Rightarrow> Inl callbackError)"

definition handleError :: "js_error \<Rightarrow> string \<Rightarrow> on_error option \<Rightarrow> unit comp" where
  "handleError error url userCallback =
     and_then ([WarnLoadFailed url error], Inr ())
       (case userCallback of
          None \<Rightarrow> ([], Inr ())
        | Some cb \<Rightarrow>
            try_catch (call_callback cb url error)
              (\<lambda>callbackError. ([WarnCallbackError callbackError], Inr ())))"


section \<open>One load under its timeout (core module)\<close>

text \<open>
  How the promise of \<^verbatim>\<open>loadByType(url)\<close> behaves is the host's choice: it is fulfilled or
  rejected some milliseconds after the call, or it never settles. An exception thrown by
  \<^verbatim>\<open>loadByType\<close> itself is caught by the same \<^verbatim>\<open>try\<close> block as a rejection and is
  a rejection after 0 ms here. Durations and timeouts are whole milliseconds.
\<close>

datatype load_behaviour = Resolves nat | Rejects nat js_error | NeverSettles

definition timeout_error :: "string \<Rightarrow> js_error" where
  "timeout_error url = JsError (''Timeout: '' @ url)"

text \<open>
  The host keeps the delay of \<^verbatim>\<open>setTimeout\<close> in a signed 32-bit integer: a delay of
  \<open>2^31\<close> ms or more overflows, and the timer is due at once.
\<close>

definition timer_delay :: "nat \<Rightarrow> nat" where
  "timer_delay timeout_ms = (if timeout_ms < 2 ^ 31 then timeout_ms else 0)"

text \<open>
  Whether a load that settles \<open>d\<close> ms after its start beats the timer. When load and
  timer fall on the same instant, the one that was set up first wins: with
  \<^verbatim>\<open>AbortController\<close> the timer is set by \<^verbatim>\<open>createTimeoutController\<close> before
  \<^verbatim>\<open>loadByType\<close> is called (\<open>timer_first\<close>); without it the timer is set after that call.
\<close>

definition in_time :: "bool \<Rightarrow> nat \<Rightarrow> nat \<Rightarrow> bool" where
  "in_time timer_first d timeout_ms =
     (if timer_first then d < timer_delay timeout_ms else d \<le> timer_delay timeout_ms)"

text \<open>
  \<^verbatim>\<open>Promise.race([loadPromise, timeoutPromise])\<close>: the load wins when it settles in
  time, otherwise the timer rejects with the timeout error.
\<close>

definition promise_race :: "bool \<Rightarrow> load_behaviour \<Rightarrow> nat \<Rightarrow> string \<Rightarrow> js_error + unit" where
  "promise_race timer_first loadPromise timeout_ms url =
     (case loadPromise of
        Resolves d \<Rightarrow> if in_time timer_first d timeout_ms then Inr () else Inl (timeout_error url)
      | Rejects d e \<Rightarrow> if in_time timer_first d timeout_ms then Inl e else Inl (timeout_error url)
      | NeverSettles \<Rightarrow> Inl (timeout_error url))"

definition settle_time :: "load_behaviour \<Rightarrow> nat \<Rightarrow> nat" where
  "settle_time loadPromise timeout_ms =
     (case loadPromise of
        Resolves d \<Rightarrow> min d (timer_delay timeout_ms)
      | Rejects d e \<Rightarrow> min d (timer_delay timeout_ms)
      | NeverSettles \<Rightarrow> timer_delay timeout_ms)"

text \<open>
  \<^verbatim>\<open>loadSingleAsset\<close> runs synchronously up to its first \<^verbatim>\<open>await\<close>: the timer is set
  and \<^verbatim>\<open>loadByType(url)\<close> is called. The rest runs when the race settles. The flag
  \<open>controller\<close> says whether \<^verbatim>\<open>AbortController\<close> exists: then the race is against the
  abort of the controller, whose timer was set first; otherwise against a plain timer set
  after the load was started. Both reject with the same error.
\<close>

definition loadSingleAsset_start :: "nat \<Rightarrow> string \<Rightarrow> event list" where
  "loadSingleAsset_start n url = [LoadStarted n url]"

definition loadSingleAsset_settle ::
  "bool \<Rightarrow> load_behaviour \<Rightarrow> string \<Rightarrow> nat \<Rightarrow> load_options \<Rightarrow> unit comp" where
  "loadSingleAsset_settle controller loadPromise url timeout_ms options =
     try_catch
       (if controller then ([], promise_race True loadPromise timeout_ms url)
        else ([], promise_race False loadPromise timeout_ms url))
       (\<lambda>loadError.
          and_then (handleError loadError url (onError options)) ([], Inl loadError))"


section \<open>The immediate strategy: loadAssetsBatch (core module)\<close>

text \<open>Which optional capabilities the host offers.\<close>

record host =
  has_requestIdleCallback :: bool
  has_AbortController :: bool

definition getOptimalBatchSize :: "int \<Rightarrow> int" where
  "getOptimalBatchSize requestedSize =
     (let MAX_CONCURRENT = 2; DEFAULT_SIZE = 1
      in if requestedSize > 0 then min requestedSize MAX_CONCURRENT else DEFAULT_SIZE)"

text \<open>\<^verbatim>\<open>urls.slice(i, j)\<close> for \<open>0 \<le> i \<le> j\<close>.\<close>

definition slice :: "'a list \<Rightarrow> nat \<Rightarrow> nat \<Rightarrow> 'a list" where
  "slice xs i j = take (j - i) (drop i xs)"

text \<open>
  \<^verbatim>\<open>await Promise.allSettled(promises)\<close>: the loop resumes when the last promise has
  settled, and is never handed a rejection. The promises come in the order in which they
  settle.
\<close>

definition allSettled :: "(nat \<times> unit comp) list \<Rightarrow> unit comp" where
  "allSettled promises =
     (concat (map (\<lambda>(n, p). fst p @ [LoadSettled n (snd p)]) promises), Inr ())"

text \<open>
  One iteration of the loop on the batch that starts at index \<open>i\<close>: every member is
  started, in order, then the loop waits for all of them. \<open>loads n\<close> is the behaviour of
  the \<open>n\<close>-th load; the members settle in the order of their settling times.
\<close>

definition run_batch ::
  "host \<Rightarrow> (nat \<Rightarrow> load_behaviour) \<Rightarrow> load_options \<Rightarrow> nat \<Rightarrow> nat \<Rightarrow> string list \<Rightarrow> unit comp" where
  "run_batch h loads options timeout_ms i batch =
     (let members = zip [i ..< i + length batch] batch;
          started = concat (map (\<lambda>(n, url). loadSingleAsset_start n url) members);
          in_settling_order = sort_key (\<lambda>(n, url). settle_time (loads n) timeout_ms) members;
          promises = map (\<lambda>(n, url).
                       (n, loadSingleAsset_settle (has_AbortController h) (loads n) url timeout_ms options))
                     in_settling_order
      in and_then (started, Inr ()) (allSettled promises))"

text \<open>
  The \<^verbatim>\<open>for\<close> loop. The source computes \<^verbatim>\<open>optimalBatchSize\<close> once before the loop; here
  the same value is recomputed from \<open>requested\<close> where it is used.
\<close>

function batch_loop ::
  "host \<Rightarrow> (nat \<Rightarrow> load_behaviour) \<Rightarrow> string list \<Rightarrow> load_options \<Rightarrow> nat \<Rightarrow> int \<Rightarrow> nat \<Rightarrow> unit comp" where
  "batch_loop h loads urls options timeout_ms requested i =
     (if i < length urls then
        and_then
          (run_batch h loads options timeout_ms i
             (slice urls i (i + nat (getOptimalBatchSize requested))))
          (batch_loop h loads urls options timeout_ms requested
             (i + nat (getOptimalBatchSize requested)))
      else ([], Inr ()))"
  by pat_completeness auto
termination
  by (relation "measure (\<lambda>(h, loads, urls, options, timeout_ms, requested, i). length urls - i)")
     (auto simp: getOptimalBatchSize_def Let_def)

declare batch_loop.simps [simp del]

definition loadAssetsBatch ::
  "host \<Rightarrow> (nat \<Rightarrow> load_behaviour) \<Rightarrow> string list \<Rightarrow> load_options \<Rightarrow> unit comp" where
  "loadAssetsBatch h loads urls options =
     (let batch_size = (case batchSize options of None \<Rightarrow> 1 | Some b \<Rightarrow> b);
          timeout_ms = (case timeout options of None \<Rightarrow> 15000 | Some t \<Rightarrow> t)
      in batch_loop h loads urls options timeout_ms batch_size 0)"

text \<open>The successive values of \<^verbatim>\<open>i\<close> and \<^verbatim>\<open>batch\<close> in that loop.\<close>

function batches :: "string list \<Rightarrow> int \<Rightarrow> nat \<Rightarrow> (nat \<times> string list) list" where
  "batches urls requested i =
     (if i < length urls then
        (i, slice urls i (i + nat (getOptimalBatchSize requested)))
          # batches urls requested (i + nat (getOptimalBatchSize requested))
      else [])"
  by pat_completeness auto
termination
  by (relation "measure (\<lambda>(urls, requested, i). length urls - i)")
     (auto simp: getOptimalBatchSize_def Let_def)

declare batches.simps [simp del]


section \<open>The idle strategy: queue, flag and processing cycle (core module)\<close>

record idle_task =
  urls :: "string list"
  options :: load_options

text \<open>
  The module state (\<^verbatim>\<open>idleQueue\<close>, \<^verbatim>\<open>isIdleProcessing\<close>) together with what the host
  holds for the scheduler: the callbacks handed to \<^verbatim>\<open>requestIdleCallback\<close> that have not
  run yet, the pending \<^verbatim>\<open>setTimeout\<close> callbacks with the time at which they are due, and
  the host's clock in milliseconds. \<open>events\<close> is everything done so far.
\<close>

record scheduler =
  idleQueue :: "idle_task list"
  isIdleProcessing :: bool
  idleCallbacks :: nat
  timers :: "(nat \<times> timer_callback) list"
  clock :: nat
  events :: "event list"

definition emit :: "event list \<Rightarrow> scheduler \<Rightarrow> scheduler" where
  "emit es st = st\<lparr>events := events st @ es\<rparr>"

definition set_flag :: "bool \<Rightarrow> scheduler \<Rightarrow> scheduler" where
  "set_flag b st = emit [FlagWrite b] (st\<lparr>isIdleProcessing := b\<rparr>)"

definition setTimeout :: "timer_callback \<Rightarrow> nat \<Rightarrow> scheduler \<Rightarrow> scheduler" where
  "setTimeout callback delay st =
     emit [TimerSet delay callback] (st\<lparr>timers := timers st @ [(clock st + delay, callback)]\<rparr>)"

definition requestIdleCallback :: "scheduler \<Rightarrow> scheduler" where
  "requestIdleCallback st = emit [IdleCallbackRequested] (st\<lparr>idleCallbacks := idleCallbacks st + 1\<rparr>)"

definition addIdleTask :: "string list \<Rightarrow> load_options \<Rightarrow> scheduler \<Rightarrow> scheduler" where
  "addIdleTask us opts st = st\<lparr>idleQueue := idleQueue st @ [\<lparr>urls = us, options = opts\<rparr>]\<rparr>"

definition scheduleIdleWork :: "host \<Rightarrow> scheduler \<Rightarrow> scheduler" where
  "scheduleIdleWork h st =
     (if isIdleProcessing st \<or> idleQueue st = [] then st
      else let st1 = set_flag True st
           in if has_requestIdleCallback h then requestIdleCallback st1
              else setTimeout FallbackIdle 50 st1)"

text \<open>
  \<^verbatim>\<open>typeof document !== 'undefined' && document.hidden\<close>; \<open>None\<close> is a host without
  \<^verbatim>\<open>document\<close>.
\<close>

definition shouldPauseIdleLoading :: "bool option \<Rightarrow> bool" where
  "shouldPauseIdleLoading document_hidden =
     (case document_hidden of None \<Rightarrow> False | Some hidden \<Rightarrow> hidden)"

definition calculateOptimalBatchSize :: "real \<Rightarrow> nat" where
  "calculateOptimalBatchSize timeRemaining =
     (let MIN_TIME_REMAINING = 12; ESTIMATED_PROCESS_TIME = 3; MAX_BATCH_SIZE = 2;
          availableTime = timeRemaining - MIN_TIME_REMAINING
      in if availableTime \<le> 0 then 0
         else min (nat \<lfloor>availableTime / ESTIMATED_PROCESS_TIME\<rfloor>) MAX_BATCH_SIZE)"

text \<open>
  The body of the \<^verbatim>\<open>while\<close> loop on the task taken from the head of the queue:
  \<^verbatim>\<open>urls.shift()\<close>, the test \<^verbatim>\<open>if (url)\<close> (an empty string and \<^verbatim>\<open>undefined\<close> are
  falsy), the launch, and the re-queueing of what remains.
\<close>

definition launched_after ::
  "nat \<Rightarrow> idle_task \<Rightarrow> (nat \<times> string \<times> load_options) list \<Rightarrow> (nat \<times> string \<times> load_options) list" where
  "launched_after processedCount task launched =
     (case urls task of
        [] \<Rightarrow> launched
      | url # rest \<Rightarrow> if url \<noteq> [] then launched @ [(processedCount, url, options task)] else launched)"

definition count_after :: "nat \<Rightarrow> idle_task \<Rightarrow> nat" where
  "count_after processedCount task =
     (case urls task of
        [] \<Rightarrow> processedCount
      | url # rest \<Rightarrow> if url \<noteq> [] then processedCount + 1 else processedCount)"

definition queue_after :: "idle_task \<Rightarrow> idle_task list \<Rightarrow> idle_task list" where
  "queue_after task queue =
     (if tl (urls task) \<noteq> [] then queue @ [\<lparr>urls = tl (urls task), options = options task\<rparr>]
      else queue)"

definition queue_weight :: "idle_task list \<Rightarrow> nat" where
  "queue_weight queue = sum_list (map (\<lambda>task. Suc (length (urls task))) queue)"

text \<open>
  The \<^verbatim>\<open>while\<close> loop of \<^verbatim>\<open>processIdleQueue\<close>: it returns the queue it leaves and the
  loads it launched, each with its \<^verbatim>\<open>processedCount\<close>, URL and options.
\<close>

function idle_loop ::
  "nat \<Rightarrow> nat \<Rightarrow> idle_task list \<Rightarrow> (nat \<times> string \<times> load_options) list
     \<Rightarrow> idle_task list \<times> (nat \<times> string \<times> load_options) list" where
  "idle_loop optimalBatchSize processedCount [] launched = ([], launched)"
| "idle_loop optimalBatchSize processedCount (task # queue) launched =
     (if processedCount < optimalBatchSize then
        idle_loop optimalBatchSize (count_after processedCount task) (queue_after task queue)
          (launched_after processedCount task launched)
      else (task # queue, launched))"
  by pat_completeness auto
termination
proof (relation "measure (\<lambda>(optimalBatchSize, processedCount, queue, launched). queue_weight queue)")
  fix optimalBatchSize processedCount :: nat and task :: idle_task and queue :: "idle_task list"
    and launched :: "(nat \<times> string \<times> load_options) list"
  have "queue_weight (queue_after task queue) < queue_weight (task # queue)"
    by (cases "urls task") (simp_all add: queue_weight_def queue_after_def)
  then show "((optimalBatchSize, count_after processedCount task, queue_after task queue,
                launched_after processedCount task launched),
              (optimalBatchSize, processedCount, task # queue, launched))
             \<in> measure (\<lambda>(optimalBatchSize, processedCount, queue, launched). queue_weight queue)"
    by simp
qed simp

text \<open>
  \<^verbatim>\<open>processIdleQueue(deadline)\<close>. \<open>deadline\<close> is what \<^verbatim>\<open>deadline.timeRemaining()\<close> does
  when it is called: it returns a number, or (a faulty host object) throws.
\<close>

definition processIdleQueue ::
  "host \<Rightarrow> bool option \<Rightarrow> js_error + real \<Rightarrow> scheduler \<Rightarrow> scheduler \<times> (js_error + unit)" where
  "processIdleQueue h document_hidden deadline st =
     (if shouldPauseIdleLoading document_hidden then
        (setTimeout Reschedule 1000 (set_flag False st), Inr ())
      else case deadline of
        Inl thrown \<Rightarrow> (st, Inl thrown)
      | Inr timeRemaining \<Rightarrow>
          let optimalBatchSize = calculateOptimalBatchSize timeRemaining in
          if optimalBatchSize = 0 \<or> idleQueue st = [] then
            (let st1 = set_flag False st
             in if idleQueue st1 \<noteq> [] then scheduleIdleWork h st1 else st1, Inr ())
          else
            (let (queue, launched) = idle_loop optimalBatchSize 0 (idleQueue st) [];
                 st1 = emit (concat (map (\<lambda>(n, url, opts). loadSingleAsset_start n url) launched))
                         (st\<lparr>idleQueue := queue\<rparr>);
                 st2 = set_flag False st1
             in if idleQueue st2 \<noteq> [] then scheduleIdleWork h st2 else st2, Inr ()))"

text \<open>
  The callback given to \<^verbatim>\<open>requestIdleCallback\<close>, and the one given to \<^verbatim>\<open>setTimeout\<close>
  when that is missing: \<^verbatim>\<open>try { processIdleQueue(deadline) } catch (error) { ... }\<close>.
\<close>

definition idle_callback :: "host \<Rightarrow> bool option \<Rightarrow> js_error + real \<Rightarrow> scheduler \<Rightarrow> scheduler" where
  "idle_callback h document_hidden deadline st =
     (case processIdleQueue h document_hidden deadline st of
        (st', Inr done) \<Rightarrow> st'
      | (st', Inl error) \<Rightarrow> set_flag False (emit [WarnIdleFailed error] st'))"

definition fallback_callback :: "host \<Rightarrow> bool option \<Rightarrow> scheduler \<Rightarrow> scheduler" where
  "fallback_callback h document_hidden st = idle_callback h document_hidden (Inr 5) st"

text \<open>
  The fire-and-forget launch of the loop,
  \<^verbatim>\<open>loadSingleAsset(url, options.timeout || 15000, options).catch(...)\<close>, from the moment
  the race settles.
\<close>

definition idle_dispatch :: "bool \<Rightarrow> load_behaviour \<Rightarrow> string \<Rightarrow> load_options \<Rightarrow> unit comp" where
  "idle_dispatch controller loadPromise url opts =
     try_catch
       (loadSingleAsset_settle controller loadPromise url
          (case timeout opts of None \<Rightarrow> 15000 | Some t \<Rightarrow> if t = 0 then 15000 else t) opts)
       (\<lambda>error. handleError error url (onError opts))"


section \<open>The public entry point (index.ts)\<close>

text \<open>
  The promise chain of the immediate strategy,
  \<^verbatim>\<open>loadAssetsBatch(validUrls, immediateOptions).catch(...)\<close>.
\<close>

definition immediate_chain ::
  "host \<Rightarrow> (nat \<Rightarrow> load_behaviour) \<Rightarrow> string list \<Rightarrow> load_options \<Rightarrow> unit comp" where
  "immediate_chain h loads validUrls immediateOptions =
     try_catch (loadAssetsBatch h loads validUrls immediateOptions)
       (\<lambda>error. ([WarnImmediateFailed error], Inr ()))"

text \<open>
  \<^verbatim>\<open>loadResources\<close> returns the new state and how the call itself completes. The events of
  the detached chain of the immediate strategy are recorded as one block; they touch neither
  the queue nor the flag.
\<close>

definition loadResources ::
  "host \<Rightarrow> (nat \<Rightarrow> load_behaviour) \<Rightarrow> resources_arg \<Rightarrow> load_resources_options \<Rightarrow> scheduler
     \<Rightarrow> scheduler \<times> (js_error + unit)" where
  "loadResources h loads resources opts st =
     (let chosen = (case strategy opts of None \<Rightarrow> Immediate | Some s \<Rightarrow> s);
          batch_size = (case batchSize opts of None \<Rightarrow> 1 | Some b \<Rightarrow> b);
          validUrls = prepareResourcesForLoading resources
      in if validUrls = [] then (st, Inr ())
         else if chosen = Idle then
           (let idleOptions = \<lparr>batchSize = Some batch_size, timeout = timeout opts, onError = onError opts\<rparr>
            in (scheduleIdleWork h (addIdleTask validUrls idleOptions st), Inr ()))
         else
           (let immediateOptions = \<lparr>batchSize = Some batch_size, timeout = timeout opts, onError = onError opts\<rparr>
            in (emit (fst (immediate_chain h loads validUrls immediateOptions)) st, Inr ())))"


section \<open>The host's event loop\<close>

text \<open>
  What can happen next: a caller calls \<^verbatim>\<open>loadResources\<close>; the host runs a pending idle
  callback, with the visibility of the page and the deadline of that moment; the host runs
  the \<open>k\<close>-th pending timer, once it is due; time passes.
\<close>

datatype host_event =
    Call "nat \<Rightarrow> load_behaviour" resources_arg load_resources_options
  | IdleCallbackFires "bool option" "js_error + real"
  | TimerFires nat "bool option"
  | TimePasses nat

definition remove_nth :: "nat \<Rightarrow> 'a list \<Rightarrow> 'a list" where
  "remove_nth k xs = take k xs @ drop (Suc k) xs"

fun host_step :: "host \<Rightarrow> scheduler \<Rightarrow> host_event \<Rightarrow> scheduler" where
  "host_step h st (Call loads resources opts) = fst (loadResources h loads resources opts st)"
| "host_step h st (IdleCallbackFires document_hidden deadline) =
     (if idleCallbacks st = 0 then st
      else idle_callback h document_hidden deadline (st\<lparr>idleCallbacks := idleCallbacks st - 1\<rparr>))"
| "host_step h st (TimerFires k document_hidden) =
     (if k < length (timers st) \<and> fst (timers st ! k) \<le> clock st then
        (let st1 = st\<lparr>timers := remove_nth k (timers st)\<rparr>
         in case snd (timers st ! k) of
              FallbackIdle \<Rightarrow> fallback_callback h document_hidden st1
            | Reschedule \<Rightarrow> scheduleIdleWork h st1)
      else st)"
| "host_step h st (TimePasses d) = st\<lparr>clock := clock st + d\<rparr>"

definition initial :: scheduler where
  "initial = \<lparr>idleQueue = [], isIdleProcessing = False, idleCallbacks = 0, timers = [],
              clock = 0, events = []\<rparr>"

definition run :: "host \<Rightarrow> host_event list \<Rightarrow> scheduler" where
  "run h evs = foldl (host_step h) initial evs"


section \<open>Notions used in the statements\<close>

text \<open>
  The definitions of this section add nothing to the program: they name what the theorems
  talk about.
\<close>

subsection \<open>Loads and batches\<close>

definition is_start :: "event \<Rightarrow> bool" where
  "is_start e = (case e of LoadStarted n url \<Rightarrow> True | _ \<Rightarrow> False)"

text \<open>What the members of a batch emit while the loop waits for them, in the given order.\<close>

definition settled_part ::
  "host \<Rightarrow> (nat \<Rightarrow> load_behaviour) \<Rightarrow> load_options \<Rightarrow> nat \<Rightarrow> (nat \<times> string) list \<Rightarrow> event list" where
  "settled_part h loads opts T members =
     concat (map (\<lambda>(n, url). fst (loadSingleAsset_settle (has_AbortController h) (loads n) url T opts)
                    @ [LoadSettled n (promise_race (has_AbortController h) (loads n) T url)]) members)"

text \<open>
  The loads in flight at the end of a trace: those started whose guarded promise (the race
  of \<^verbatim>\<open>loadSingleAsset\<close>) has not settled yet.
\<close>

definition started_ids :: "event list \<Rightarrow> nat list" where
  "started_ids es = concat (map (\<lambda>e. case e of LoadStarted n url \<Rightarrow> [n] | _ \<Rightarrow> []) es)"

definition settled_ids :: "event list \<Rightarrow> nat list" where
  "settled_ids es = concat (map (\<lambda>e. case e of LoadSettled n r \<Rightarrow> [n] | _ \<Rightarrow> []) es)"

definition in_flight :: "event list \<Rightarrow> nat list" where
  "in_flight es = filter (\<lambda>n. n \<notin> set (settled_ids es)) (started_ids es)"

text \<open>
  The chunks as they show in a trace: the lengths of the maximal runs of loads started
  with no other event in between. \<open>start_runs es c\<close> reads \<open>es\<close> with \<open>c\<close> starts of
  the current run already seen.
\<close>

fun start_runs :: "event list \<Rightarrow> nat \<Rightarrow> nat list" where
  "start_runs [] c = (if c = 0 then [] else [c])"
| "start_runs (e # es) c =
     (if is_start e then start_runs es (Suc c)
      else (if c = 0 then [] else [c]) @ start_runs es 0)"

definition start_blocks :: "event list \<Rightarrow> nat list" where
  "start_blocks es = start_runs es 0"

text \<open>The two defaults of \<^verbatim>\<open>loadAssetsBatch\<close>, and the step of its loop.\<close>

definition batch_size_of :: "load_options \<Rightarrow> nat" where
  "batch_size_of opts = nat (getOptimalBatchSize (case batchSize opts of None \<Rightarrow> 1 | Some b \<Rightarrow> b))"

definition timeout_of :: "load_options \<Rightarrow> nat" where
  "timeout_of opts = (case timeout opts of None \<Rightarrow> 15000 | Some t \<Rightarrow> t)"

text \<open>The options object that \<^verbatim>\<open>loadResources\<close> builds for either strategy.\<close>

definition passed_options :: "load_resources_options \<Rightarrow> load_options" where
  "passed_options opts =
     \<lparr>batchSize = Some (case batchSize opts of None \<Rightarrow> 1 | Some b \<Rightarrow> b),
      timeout = timeout opts, onError = onError opts\<rparr>"

subsection \<open>The idle queue\<close>

definition pop_front :: "idle_task \<Rightarrow> idle_task" where
  "pop_front task = \<lparr>urls = tl (urls task), options = options task\<rparr>"

text \<open>The tasks that go back to the queue after one URL was taken from each.\<close>

definition requeued :: "idle_task list \<Rightarrow> idle_task list" where
  "requeued tasks = filter (\<lambda>task. urls task \<noteq> []) (map pop_front tasks)"

definition queued_urls :: "idle_task list \<Rightarrow> nat" where
  "queued_urls queue = sum_list (map (\<lambda>task. length (urls task)) queue)"

text \<open>A task whose first URL passes the test \<^verbatim>\<open>if (url)\<close>.\<close>

definition launchable :: "idle_task \<Rightarrow> bool" where
  "launchable task = (case urls task of [] \<Rightarrow> False | url # rest \<Rightarrow> url \<noteq> [])"

definition nonempty_urls :: "idle_task \<Rightarrow> bool" where
  "nonempty_urls task = list_all (\<lambda>url. url \<noteq> []) (urls task)"

subsection \<open>Slots, flag and events of the scheduler\<close>

text \<open>
  A slot is pending when an idle callback or the 50 ms fallback timer has been requested
  and has not run yet.
\<close>

definition pending_slots :: "scheduler \<Rightarrow> nat" where
  "pending_slots st =
     idleCallbacks st + length (filter (\<lambda>(due, callback). callback = FallbackIdle) (timers st))"

definition slot_invariant :: "scheduler \<Rightarrow> bool" where
  "slot_invariant st = (pending_slots st = (if isIdleProcessing st then 1 else 0))"

definition new_events :: "scheduler \<Rightarrow> scheduler \<Rightarrow> event list" where
  "new_events before after = drop (length (events before)) (events after)"

definition is_slot_request :: "event \<Rightarrow> bool" where
  "is_slot_request e = (e = IdleCallbackRequested \<or> e = TimerSet 50 FallbackIdle)"

definition slot_request :: "host \<Rightarrow> event" where
  "slot_request h = (if has_requestIdleCallback h then IdleCallbackRequested else TimerSet 50 FallbackIdle)"

text \<open>Every slot request of a trace comes right after the flag was set.\<close>

fun guarded_requests :: "event option \<Rightarrow> event list \<Rightarrow> bool" where
  "guarded_requests previous [] = True"
| "guarded_requests previous (e # es) =
     ((if is_slot_request e then previous = Some (FlagWrite True) else True)
      \<and> guarded_requests (Some e) es)"

text \<open>
  The common end of the paths of \<^verbatim>\<open>processIdleQueue\<close> that are not deferred: the flag
  is cleared and, when tasks remain, \<^verbatim>\<open>scheduleIdleWork\<close> is called.
\<close>

definition after_clear :: "host \<Rightarrow> scheduler \<Rightarrow> scheduler" where
  "after_clear h st =
     (let st1 = set_flag False st in if idleQueue st1 \<noteq> [] then scheduleIdleWork h st1 else st1)"

definition no_call :: "host_event \<Rightarrow> bool" where
  "no_call ev = (case ev of Call loads resources opts \<Rightarrow> False | _ \<Rightarrow> True)"

text \<open>
  The events of the example run of the hidden page: on a host that has both optional
  capabilities, a call of \<^verbatim>\<open>loadResources(url, {strategy: 'idle'})\<close>, and an idle callback
  that finds the page hidden with 50 ms remaining.
\<close>

definition browser_host :: host where
  "browser_host = \<lparr>has_requestIdleCallback = True, has_AbortController = True\<rparr>"

definition idle_call :: "string \<Rightarrow> host_event" where
  "idle_call url =
     Call (\<lambda>n. Resolves 10) (Single (Str url))
       \<lparr>batchSize = None, timeout = None, onError = None, strategy = Some Idle\<rparr>"

definition hidden_cycle :: host_event where
  "hidden_cycle = IdleCallbackFires (Some True) (Inr 50)"

subsection \<open>Validity of a descriptor\<close>


text \<open>
  Validity in the words of the specification: a descriptor is valid when it does not use a
  dangerous scheme and is an absolute http/https URL, a protocol-relative URL, or a
  relative or root-relative path, over the restricted character set. A relative path is
  read as a reference without a scheme: no colon before its first slash, question mark or
  hash.
\<close>

definition absolute_http_url :: "string \<Rightarrow> bool" where
  "absolute_http_url s = (starts_with s ''http://'' \<or> starts_with s ''https://'')"

definition protocol_relative_url :: "string \<Rightarrow> bool" where
  "protocol_relative_url s = starts_with s ''//''"

definition root_relative_path :: "string \<Rightarrow> bool" where
  "root_relative_path s = (starts_with s ''/'' \<and> \<not> starts_with s ''//'')"

definition relative_path :: "string \<Rightarrow> bool" where
  "relative_path s =
     (s \<noteq> [] \<and> \<not> starts_with s ''/''
      \<and> CHR '':'' \<notin> set (takeWhile (\<lambda>c. c \<notin> set ''/?#'') s))"

definition spec_valid_descriptor :: "string \<Rightarrow> bool" where
  "spec_valid_descriptor s =
     (\<not> dangerous_protocol s
      \<and> (absolute_http_url s \<or> protocol_relative_url s \<or> root_relative_path s \<or> relative_path s)
      \<and> url_chars_only s)"


section \<open>Auxiliary facts\<close>

subsection \<open>Error reporting and single loads\<close>

lemma handleError_events:
  "handleError error url userCallback =
     (WarnLoadFailed url error #
        (case userCallback of
           None \<Rightarrow> []
         | Some cb \<Rightarrow> OnErrorCalled url error #
             (case cb url error of Returns \<Rightarrow> [] | Throws thrown \<Rightarrow> [WarnCallbackError thrown])),
      Inr ())"
  by (simp add: handleError_def and_then_def try_catch_def call_callback_def
      split: option.splits callback_result.splits)

lemma handleError_returns: "snd (handleError error url userCallback) = Inr ()"
  by (simp add: handleError_events)

lemma loadSingleAsset_settle_result:
  "snd (loadSingleAsset_settle controller loadPromise url timeout_ms opts) = promise_race controller loadPromise timeout_ms url"
  by (simp add: loadSingleAsset_settle_def try_catch_def and_then_def handleError_returns split: sum.splits)

lemma loadSingleAsset_settle_events:
  "fst (loadSingleAsset_settle controller loadPromise url timeout_ms opts) =
     (case promise_race controller loadPromise timeout_ms url of
        Inr done \<Rightarrow> []
      | Inl loadError \<Rightarrow> fst (handleError loadError url (onError opts)))"
  by (simp add: loadSingleAsset_settle_def try_catch_def and_then_def handleError_returns split: sum.splits)

lemma idle_dispatch_result: "snd (idle_dispatch controller loadPromise url opts) = Inr ()"
  by (simp add: idle_dispatch_def try_catch_def handleError_returns split: sum.splits)

lemma timeout_reported_once_by_load:
  "promise_race controller loadPromise timeout_ms url = Inl (timeout_error url) \<Longrightarrow>
   fst (loadSingleAsset_settle controller loadPromise url timeout_ms opts)
     = fst (handleError (timeout_error url) url (onError opts))"
  by (simp add: loadSingleAsset_settle_events)

lemma idle_dispatch_events:
  "fst (idle_dispatch controller loadPromise url opts) =
     (case promise_race controller loadPromise (case timeout opts of None \<Rightarrow> 15000 | Some t \<Rightarrow> if t = 0 then 15000 else t) url of
        Inr done \<Rightarrow> []
      | Inl loadError \<Rightarrow> fst (handleError loadError url (onError opts))
                          @ fst (handleError loadError url (onError opts)))"
  by (simp add: idle_dispatch_def try_catch_def loadSingleAsset_settle_result
      loadSingleAsset_settle_events split: sum.splits)

subsection \<open>The partition into batches\<close>

lemma getOptimalBatchSize_eq: "getOptimalBatchSize B = min (max B 1) 2"
  by (simp add: getOptimalBatchSize_def Let_def)

lemma getOptimalBatchSize_pos: "0 < nat (getOptimalBatchSize B)"
  by (simp add: getOptimalBatchSize_eq)

lemma batches_unfold:
  "i < length us \<Longrightarrow>
   batches us B i = (i, slice us i (i + nat (getOptimalBatchSize B)))
      # batches us B (i + nat (getOptimalBatchSize B))"
  by (subst batches.simps) simp

lemma batches_done: "\<not> i < length us \<Longrightarrow> batches us B i = []"
  by (subst batches.simps) simp

lemma slice_step: "slice xs i (i + k) = take k (drop i xs)"
  by (simp add: slice_def)

lemma batches_concat: "concat (map snd (batches us B i)) = drop i us"
proof (induction us B i rule: batches.induct)
  case (1 us B i)
  show ?case
  proof (cases "i < length us")
    case True
    have "drop i us = take (nat (getOptimalBatchSize B)) (drop i us) @ drop (i + nat (getOptimalBatchSize B)) us"
      by (metis add.commute append_take_drop_id drop_drop)
    with 1[OF True] True show ?thesis by (simp add: batches_unfold slice_step)
  next
    case False
    then show ?thesis by (simp add: batches_done)
  qed
qed

lemma batches_nth:
  "j < length (batches us B i) \<Longrightarrow>
   batches us B i ! j =
     (i + j * nat (getOptimalBatchSize B),
      take (nat (getOptimalBatchSize B)) (drop (i + j * nat (getOptimalBatchSize B)) us))"
proof (induction us B i arbitrary: j rule: batches.induct)
  case (1 us B i)
  show ?case
  proof (cases "i < length us")
    case True
    show ?thesis
    proof (cases j)
      case 0
      then show ?thesis using True by (simp add: batches_unfold slice_step)
    next
      case (Suc j')
      with 1(2) True have "j' < length (batches us B (i + nat (getOptimalBatchSize B)))"
        by (simp add: batches_unfold)
      from 1(1)[OF True this] Suc True show ?thesis
        by (simp add: batches_unfold add.assoc add.commute)
    qed
  next
    case False
    with 1(2) show ?thesis by (simp add: batches_done)
  qed
qed

lemma batches_length:
  "length (batches us B i) = (length us - i + nat (getOptimalBatchSize B) - 1) div nat (getOptimalBatchSize B)"
proof (induction us B i rule: batches.induct)
  case (1 us B i)
  let ?k = "nat (getOptimalBatchSize B)"
  have k: "0 < ?k" by (rule getOptimalBatchSize_pos)
  show ?case
  proof (cases "i < length us")
    case True
    have "(length us - i + ?k - 1) div ?k = Suc ((length us - (i + ?k) + ?k - 1) div ?k)"
    proof (cases "i + ?k \<le> length us")
      case le: True
      define X where "X = length us - (i + ?k) + ?k - 1"
      have "length us - i + ?k - 1 = X + ?k" using le k by (simp add: X_def)
      moreover have "(X + ?k) div ?k = Suc (X div ?k)" using k by simp
      ultimately show ?thesis by (simp add: X_def)
    next
      case gt: False
      then have a: "(length us - (i + ?k) + ?k - 1) div ?k = 0" using k by simp
      define m where "m = length us - i + ?k - 1"
      from gt True have b: "?k * 1 \<le> m" "m < ?k * Suc 1"
        by (simp_all add: m_def)
      have "m div ?k = 1" using b by (rule div_nat_eqI)
      with a show ?thesis by (simp add: m_def)
    qed
    with 1[OF True] True show ?thesis by (simp add: batches_unfold)
  next
    case False
    then show ?thesis using k by (simp add: batches_done)
  qed
qed

subsection \<open>Events of the batch loop\<close>

lemma run_batch_result: "snd (run_batch h loads opts T i batch) = Inr ()"
  by (simp add: run_batch_def Let_def and_then_def allSettled_def)

lemma run_batch_events:
  "fst (run_batch h loads opts T i batch) =
     map (\<lambda>(n, url). LoadStarted n url) (zip [i ..< i + length batch] batch)
     @ settled_part h loads opts T (sort_key (\<lambda>(n, url). settle_time (loads n) T) (zip [i ..< i + length batch] batch))"
proof -
  have 1: "concat (map (\<lambda>(n, url). loadSingleAsset_start n url) ms) = map (\<lambda>(n, url). LoadStarted n url) ms" for ms
    by (induction ms) (auto simp: loadSingleAsset_start_def)
  have 2: "fst (allSettled (map (\<lambda>(n, url). (n, loadSingleAsset_settle c (loads n) url T opts)) ms))
        = concat (map (\<lambda>(n, url). fst (loadSingleAsset_settle c (loads n) url T opts)
                    @ [LoadSettled n (promise_race c (loads n) T url)]) ms)" for ms c
    by (induction ms) (auto simp: allSettled_def loadSingleAsset_settle_result)
  show ?thesis
    by (simp add: run_batch_def Let_def and_then_def 1 2 settled_part_def)
qed

lemma settle_no_start: "e \<in> set (fst (loadSingleAsset_settle c b url T opts)) \<Longrightarrow> \<not> is_start e"
  by (auto simp: loadSingleAsset_settle_events handleError_events is_start_def
      split: sum.splits option.splits callback_result.splits)

lemma settled_part_no_start: "e \<in> set (settled_part h loads opts T ms) \<Longrightarrow> \<not> is_start e"
  by (auto simp: settled_part_def is_start_def dest: settle_no_start)

lemma settled_part_marks:
  "(n, url) \<in> set ms \<Longrightarrow> LoadSettled n (promise_race (has_AbortController h) (loads n) T url) \<in> set (settled_part h loads opts T ms)"
  by (force simp: settled_part_def)

lemma zip_upt_mem:
  "i \<le> n \<Longrightarrow> n < i + length batch \<Longrightarrow> (n, batch ! (n - i)) \<in> set (zip [i ..< i + length batch] batch)"
proof -
  assume a: "i \<le> n" "n < i + length batch"
  have len: "n - i < length (zip [i ..< i + length batch] batch)" using a by simp
  have "zip [i ..< i + length batch] batch ! (n - i) = (n, batch ! (n - i))" using a by simp
  with nth_mem[OF len] show ?thesis by simp
qed

lemma run_batch_start_range:
  "LoadStarted m u \<in> set (fst (run_batch h loads opts T i batch)) \<Longrightarrow> i \<le> m \<and> m < i + length batch"
proof -
  assume a: "LoadStarted m u \<in> set (fst (run_batch h loads opts T i batch))"
  have "LoadStarted m u \<notin> set (settled_part h loads opts T ms)" for ms
    using settled_part_no_start[of "LoadStarted m u"] by (auto simp: is_start_def)
  with a have "(m, u) \<in> set (zip [i ..< i + length batch] batch)"
    by (auto simp: run_batch_events)
  then have "m \<in> set [i ..< i + length batch]" by (rule set_zip_leftD)
  then show ?thesis by simp
qed

lemma run_batch_settles:
  "i \<le> n \<Longrightarrow> n < i + length batch \<Longrightarrow>
   LoadSettled n (promise_race (has_AbortController h) (loads n) T (batch ! (n - i))) \<in> set (fst (run_batch h loads opts T i batch))"
proof -
  assume a: "i \<le> n" "n < i + length batch"
  then have "(n, batch ! (n - i)) \<in> set (zip [i ..< i + length batch] batch)"
    by (rule zip_upt_mem)
  then have "(n, batch ! (n - i)) \<in> set (sort_key (\<lambda>(n, url). settle_time (loads n) T) (zip [i ..< i + length batch] batch))"
    by simp
  from settled_part_marks[OF this] show ?thesis by (simp add: run_batch_events)
qed

lemma run_batch_starts:
  "i \<le> n \<Longrightarrow> n < i + length batch \<Longrightarrow>
   LoadStarted n (batch ! (n - i)) \<in> set (fst (run_batch h loads opts T i batch))"
proof -
  assume a: "i \<le> n" "n < i + length batch"
  then have "(n, batch ! (n - i)) \<in> set (zip [i ..< i + length batch] batch)"
    by (rule zip_upt_mem)
  then show ?thesis by (force simp: run_batch_events)
qed

lemma batch_loop_unfold:
  "i < length us \<Longrightarrow>
   batch_loop h loads us opts T B i =
     (fst (run_batch h loads opts T i (take (nat (getOptimalBatchSize B)) (drop i us)))
        @ fst (batch_loop h loads us opts T B (i + nat (getOptimalBatchSize B))),
      snd (batch_loop h loads us opts T B (i + nat (getOptimalBatchSize B))))"
  by (subst batch_loop.simps) (simp add: and_then_def run_batch_result slice_step)

lemma batch_loop_done: "\<not> i < length us \<Longrightarrow> batch_loop h loads us opts T B i = ([], Inr ())"
  by (subst batch_loop.simps) simp

lemma batch_loop_result: "snd (batch_loop h loads us opts T B i) = Inr ()"
proof (induction h loads us opts T B i rule: batch_loop.induct)
  case (1 h loads us opts T B i)
  show ?case
  proof (cases "i < length us")
    case True
    from 1[OF True] show ?thesis by (simp only: batch_loop_unfold[OF True] snd_conv)
  next
    case False
    show ?thesis by (simp only: batch_loop_done[OF False] snd_conv)
  qed
qed

lemma batch_loop_batches:
  "fst (batch_loop h loads us opts T B i) =
     concat (map (\<lambda>(j, batch). fst (run_batch h loads opts T j batch)) (batches us B i))"
proof (induction h loads us opts T B i rule: batch_loop.induct)
  case (1 h loads us opts T B i)
  show ?case
  proof (cases "i < length us")
    case True
    from 1[OF True] show ?thesis
      by (simp add: batch_loop_unfold[OF True] batches_unfold[OF True] slice_step)
  next
    case False
    then show ?thesis by (simp add: batch_loop_done batches_done)
  qed
qed

lemma batch_loop_start_lower:
  "LoadStarted m u \<in> set (fst (batch_loop h loads us opts T B i)) \<Longrightarrow> i \<le> m"
proof (induction h loads us opts T B i rule: batch_loop.induct)
  case (1 h loads us opts T B i)
  show ?case
  proof (cases "i < length us")
    case True
    from 1(2) True consider
      "LoadStarted m u \<in> set (fst (run_batch h loads opts T i (take (nat (getOptimalBatchSize B)) (drop i us))))"
      | "LoadStarted m u \<in> set (fst (batch_loop h loads us opts T B (i + nat (getOptimalBatchSize B))))"
      by (auto simp: batch_loop_unfold)
    then show ?thesis
    proof cases
      case 1
      then show ?thesis using run_batch_start_range by blast
    next
      case 2
      with "1.IH"[OF True] show ?thesis by simp
    qed
  next
    case False
    with 1(2) show ?thesis by (simp add: batch_loop_done)
  qed
qed

lemma append_split_at:
  "xs @ ys = pre @ a # post \<Longrightarrow>
   (\<exists>p. xs = pre @ a # p) \<or> (\<exists>p. pre = xs @ p \<and> ys = p @ a # post)"
  by (auto simp: append_eq_append_conv2 append_eq_Cons_conv)

lemma batch_loop_barrier:
  "fst (batch_loop h loads us opts T B i) = pre @ LoadStarted m u # post \<Longrightarrow>
   i \<le> n \<Longrightarrow> n < length us \<Longrightarrow> n < i + j * nat (getOptimalBatchSize B) \<Longrightarrow>
   i + j * nat (getOptimalBatchSize B) \<le> m \<Longrightarrow>
   \<exists>r. LoadSettled n r \<in> set pre"
proof (induction h loads us opts T B i arbitrary: pre j rule: batch_loop.induct)
  case (1 h loads us opts T B i)
  let ?k = "nat (getOptimalBatchSize B)"
  let ?batch = "take ?k (drop i us)"
  let ?now = "fst (run_batch h loads opts T i ?batch)"
  let ?rest = "fst (batch_loop h loads us opts T B (i + ?k))"
  have k: "0 < ?k" by (rule getOptimalBatchSize_pos)
  from "1.prems" have i: "i < length us" by simp
  from "1.prems" have j: "0 < j" by (cases j) auto
  then have jk: "?k \<le> j * ?k" by (cases j) auto
  from "1.prems"(1) i have eq: "?now @ ?rest = pre @ LoadStarted m u # post"
    by (simp add: batch_loop_unfold)
  from append_split_at[OF eq] show ?case
  proof (elim disjE exE conjE)
    fix p
    assume "?now = pre @ LoadStarted m u # p"
    then have "LoadStarted m u \<in> set ?now" by simp
    then have "m < i + length ?batch" using run_batch_start_range by blast
    then have "m < i + ?k" by simp
    with "1.prems"(5) jk show ?thesis by simp
  next
    fix p
    assume 2: "pre = ?now @ p" "?rest = p @ LoadStarted m u # post"
    show ?thesis
    proof (cases "n < i + ?k")
      case True
      with "1.prems"(2,3) have "n < i + length ?batch" by simp
      from run_batch_settles[OF "1.prems"(2) this, where loads = loads and T = T and h = h and opts = opts] 2(1)
      show ?thesis by auto
    next
      case False
      then have a: "i + ?k \<le> n" by simp
      obtain j' where j': "j = Suc j'" using j by (cases j) auto
      have b: "n < (i + ?k) + j' * ?k" using "1.prems"(4) by (simp add: j')
      have c: "(i + ?k) + j' * ?k \<le> m" using "1.prems"(5) by (simp add: j')
      from "1.IH"[OF i 2(2) a "1.prems"(3) b c] obtain r where "LoadSettled n r \<in> set p" by blast
      with 2(1) show ?thesis by auto
    qed
  qed
qed

lemma batch_loop_every_load:
  "i \<le> n \<Longrightarrow> n < length us \<Longrightarrow>
   LoadStarted n (us ! n) \<in> set (fst (batch_loop h loads us opts T B i))
   \<and> LoadSettled n (promise_race (has_AbortController h) (loads n) T (us ! n)) \<in> set (fst (batch_loop h loads us opts T B i))"
proof (induction h loads us opts T B i rule: batch_loop.induct)
  case (1 h loads us opts T B i)
  let ?k = "nat (getOptimalBatchSize B)"
  let ?batch = "take ?k (drop i us)"
  from "1.prems" have i: "i < length us" by simp
  show ?case
  proof (cases "n < i + ?k")
    case True
    with "1.prems" have len: "n < i + length ?batch" by simp
    have nth: "?batch ! (n - i) = us ! n" using True "1.prems" by simp
    from run_batch_starts[OF "1.prems"(1) len, of h loads opts T]
         run_batch_settles[OF "1.prems"(1) len, where loads = loads and T = T and h = h and opts = opts]
    show ?thesis using i by (simp add: batch_loop_unfold nth)
  next
    case False
    then have "i + ?k \<le> n" by simp
    from "1.IH"[OF i this "1.prems"(2)] show ?thesis using i by (simp add: batch_loop_unfold)
  qed
qed

lemma loadAssetsBatch_loop:
  "loadAssetsBatch h loads us opts =
     batch_loop h loads us opts (timeout_of opts) (case batchSize opts of None \<Rightarrow> 1 | Some b \<Rightarrow> b) 0"
  by (simp add: loadAssetsBatch_def timeout_of_def Let_def)

lemma filter_start_settled: "filter is_start (settled_part h loads opts T ms) = []"
  using settled_part_no_start by (auto simp: filter_empty_conv)

lemma filter_start_map:
  "filter is_start (map (\<lambda>(n, url). LoadStarted n url) ms) = map (\<lambda>(n, url). LoadStarted n url) ms"
  by (induction ms) (auto simp: is_start_def)

lemma run_batch_filter_start:
  "filter is_start (fst (run_batch h loads opts T i batch)) =
     map (\<lambda>(n, url). LoadStarted n url) (zip [i ..< i + length batch] batch)"
  by (simp add: run_batch_events filter_start_settled filter_start_map)

lemma upt_split: "a \<le> b \<Longrightarrow> b \<le> c \<Longrightarrow> [a ..< c] = [a ..< b] @ [b ..< c]"
  using upt_add_eq_append[of a b "c - b"] by simp

lemma zip_upt_split:
  "i \<le> length us \<Longrightarrow>
   zip [i ..< length us] (drop i us) =
     zip [i ..< i + length (take k (drop i us))] (take k (drop i us))
     @ zip [i + k ..< length us] (drop (i + k) us)"
proof -
  assume i: "i \<le> length us"
  let ?b = "take k (drop i us)"
  have len: "length ?b = min k (length us - i)" by simp
  have d: "drop i us = ?b @ drop (i + k) us"
    by (metis add.commute append_take_drop_id drop_drop)
  have u: "[i ..< length us] = [i ..< i + length ?b] @ [i + length ?b ..< length us]"
    using i by (intro upt_split) simp_all
  have z: "zip ([i ..< i + length ?b] @ [i + length ?b ..< length us]) (?b @ drop (i + k) us)
        = zip [i ..< i + length ?b] ?b @ zip [i + length ?b ..< length us] (drop (i + k) us)"
    by (rule zip_append) simp
  have t: "zip [i + length ?b ..< length us] (drop (i + k) us) = zip [i + k ..< length us] (drop (i + k) us)"
  proof (cases "k \<le> length us - i")
    case True
    then show ?thesis by (simp add: min_def)
  next
    case False
    then show ?thesis by simp
  qed
  show ?thesis by (subst u, subst d) (simp only: z t)
qed

lemma batch_loop_filter_start:
  "filter is_start (fst (batch_loop h loads us opts T B i)) =
     map (\<lambda>(n, url). LoadStarted n url) (zip [i ..< length us] (drop i us))"
proof (induction h loads us opts T B i rule: batch_loop.induct)
  case (1 h loads us opts T B i)
  show ?case
  proof (cases "i < length us")
    case True
    then have le: "i \<le> length us" by simp
    from 1[OF True] show ?thesis
      by (simp add: batch_loop_unfold[OF True] run_batch_filter_start zip_upt_split[OF le, of "nat (getOptimalBatchSize B)"])
  next
    case False
    then show ?thesis by (simp add: batch_loop_done)
  qed
qed

lemma div_boundary:
  "0 < k \<Longrightarrow> n div k < m div k \<Longrightarrow> n < (m div k) * k \<and> (m div k) * k \<le> (m::nat)"
proof -
  assume k: "0 < k" and lt: "n div k < m div k"
  then have "Suc (n div k) \<le> m div k" by simp
  then have "Suc (n div k) * k \<le> (m div k) * k" by (rule mult_le_mono1)
  moreover have "n < Suc (n div k) * k" using k by (metis dividend_less_div_times mult.commute mult_Suc)
  ultimately show ?thesis by simp
qed

subsection \<open>Loads in flight and runs of starts\<close>

lemma started_ids_append [simp]: "started_ids (a @ b) = started_ids a @ started_ids b"
  by (simp add: started_ids_def)

lemma settled_ids_append [simp]: "settled_ids (a @ b) = settled_ids a @ settled_ids b"
  by (simp add: settled_ids_def)

lemma started_ids_starts:
  "started_ids (map (\<lambda>(n, url). LoadStarted n url) ms) = map fst ms"
  by (induction ms) (auto simp: started_ids_def)

lemma settled_ids_starts:
  "settled_ids (map (\<lambda>(n, url). LoadStarted n url) ms) = []"
  by (induction ms) (auto simp: settled_ids_def)

lemma started_ids_no_start:
  "list_all (\<lambda>e. \<not> is_start e) es \<Longrightarrow> started_ids es = []"
  by (induction es) (auto simp: started_ids_def is_start_def split: event.splits)

lemma settled_part_all_no_start: "list_all (\<lambda>e. \<not> is_start e) (settled_part h loads opts T ms)"
  using settled_part_no_start by (auto simp: list_all_iff)

lemma started_ids_settled_part: "started_ids (settled_part h loads opts T ms) = []"
  by (rule started_ids_no_start) (rule settled_part_all_no_start)

lemma settled_ids_mem:
  "LoadSettled n r \<in> set es \<Longrightarrow> n \<in> set (settled_ids es)"
  by (induction es) (auto simp: settled_ids_def)

lemma started_ids_take:
  "length (started_ids (take m es)) \<le> length (started_ids es)"
proof -
  have "started_ids es = started_ids (take m es) @ started_ids (drop m es)"
    by (metis append_take_drop_id started_ids_append)
  then show ?thesis by simp
qed

lemma in_flight_le_started: "length (in_flight es) \<le> length (started_ids es)"
  by (simp add: in_flight_def)

lemma run_batch_started_ids:
  "started_ids (fst (run_batch h loads opts T i batch)) = [i ..< i + length batch]"
  by (simp add: run_batch_events started_ids_starts started_ids_settled_part)

lemma run_batch_all_settled:
  "n \<in> set [i ..< i + length batch] \<Longrightarrow> n \<in> set (settled_ids (fst (run_batch h loads opts T i batch)))"
proof -
  assume "n \<in> set [i ..< i + length batch]"
  then have a: "i \<le> n" "n < i + length batch" by simp_all
  from run_batch_settles[OF a] show ?thesis by (rule settled_ids_mem)
qed

lemma in_flight_after_batch:
  "length (in_flight (fst (run_batch h loads opts T i batch) @ es)) \<le> length (in_flight es)"
proof -
  let ?rb = "fst (run_batch h loads opts T i batch)"
  have 1: "filter (\<lambda>n. n \<notin> set (settled_ids ?rb) \<and> n \<notin> set (settled_ids es)) [i ..< i + length batch] = []"
    using run_batch_all_settled[of _ i batch h loads opts T] by (auto simp: filter_empty_conv)
  have 2: "length (filter (\<lambda>n. n \<notin> set (settled_ids ?rb) \<and> n \<notin> set (settled_ids es)) (started_ids es))
          \<le> length (filter (\<lambda>n. n \<notin> set (settled_ids es)) (started_ids es))"
  proof -
    have "filter (\<lambda>n. n \<notin> set (settled_ids ?rb) \<and> n \<notin> set (settled_ids es)) (started_ids es)
        = filter (\<lambda>n. n \<notin> set (settled_ids ?rb)) (filter (\<lambda>n. n \<notin> set (settled_ids es)) (started_ids es))"
      by (simp add: conj_commute)
    then show ?thesis by (simp only: length_filter_le)
  qed
  show ?thesis
    using 2 by (simp add: in_flight_def run_batch_started_ids 1)
qed

lemma batch_loop_in_flight:
  "length (in_flight (take m (fst (batch_loop h loads us opts T B i)))) \<le> nat (getOptimalBatchSize B)"
proof (induction h loads us opts T B i arbitrary: m rule: batch_loop.induct)
  case (1 h loads us opts T B i)
  let ?k = "nat (getOptimalBatchSize B)"
  let ?batch = "take ?k (drop i us)"
  let ?rb = "fst (run_batch h loads opts T i ?batch)"
  let ?rest = "fst (batch_loop h loads us opts T B (i + ?k))"
  show ?case
  proof (cases "i < length us")
    case True
    have tr: "fst (batch_loop h loads us opts T B i) = ?rb @ ?rest"
      by (simp only: batch_loop_unfold[OF True] fst_conv)
    show ?thesis
    proof (cases "m \<le> length ?rb")
      case le: True
      then have "take m (?rb @ ?rest) = take m ?rb" by simp
      moreover have "length (in_flight (take m ?rb)) \<le> length (started_ids (take m ?rb))"
        by (rule in_flight_le_started)
      moreover have "length (started_ids (take m ?rb)) \<le> length (started_ids ?rb)"
        by (rule started_ids_take)
      moreover have "length (started_ids ?rb) \<le> ?k"
        by (simp add: run_batch_started_ids)
      ultimately show ?thesis by (simp only: tr)
    next
      case gt: False
      then have t: "take m (?rb @ ?rest) = ?rb @ take (m - length ?rb) ?rest" by simp
      have "length (in_flight (?rb @ take (m - length ?rb) ?rest)) \<le> length (in_flight (take (m - length ?rb) ?rest))"
        by (rule in_flight_after_batch)
      also have "\<dots> \<le> ?k" by (rule 1[OF True])
      finally show ?thesis by (simp only: tr t)
    qed
  next
    case False
    then show ?thesis by (simp add: batch_loop_done in_flight_def started_ids_def)
  qed
qed

lemma batch_loop_in_flight_reached:
  "in_flight (take (min (nat (getOptimalBatchSize B)) (length us)) (fst (batch_loop h loads us opts T B 0)))
     = [0 ..< min (nat (getOptimalBatchSize B)) (length us)]"
proof (cases "0 < length us")
  case True
  let ?k = "nat (getOptimalBatchSize B)"
  let ?batch = "take ?k (drop 0 us)"
  let ?ms = "zip [0 ..< 0 + length ?batch] ?batch"
  let ?starts = "map (\<lambda>(n, url). LoadStarted n url) ?ms"
  have len: "length ?starts = min ?k (length us)" by simp
  have tr: "fst (batch_loop h loads us opts T B 0) = ?starts @
              (settled_part h loads opts T (sort_key (\<lambda>(n, url). settle_time (loads n) T) ?ms)
               @ fst (batch_loop h loads us opts T B (0 + ?k)))"
    by (simp only: batch_loop_unfold[OF True] fst_conv run_batch_events append_assoc)
  have "take (min ?k (length us)) (fst (batch_loop h loads us opts T B 0)) = ?starts"
    unfolding tr using len by (metis append_eq_conv_conj)
  moreover have "in_flight ?starts = [0 ..< min ?k (length us)]"
    by (simp add: in_flight_def started_ids_starts settled_ids_starts min.commute)
  ultimately show ?thesis by simp
next
  case False
  then show ?thesis by (simp add: batch_loop_done in_flight_def started_ids_def)
qed

lemma start_runs_starts:
  "start_runs (map (\<lambda>(n, url). LoadStarted n url) ms @ es) c = start_runs es (c + length ms)"
  by (induction ms arbitrary: c) (auto simp: is_start_def)

lemma start_runs_others:
  "rs \<noteq> [] \<Longrightarrow> list_all (\<lambda>e. \<not> is_start e) rs \<Longrightarrow>
   start_runs (rs @ es) c = (if c = 0 then [] else [c]) @ start_runs es 0"
proof (induction rs arbitrary: c)
  case Nil
  then show ?case by simp
next
  case (Cons r rs)
  show ?case
  proof (cases "rs = []")
    case True
    with Cons.prems show ?thesis by simp
  next
    case False
    from Cons.prems have "list_all (\<lambda>e. \<not> is_start e) rs" by simp
    from Cons.IH[OF False this, of 0] Cons.prems show ?thesis by simp
  qed
qed

lemma settled_part_nonempty: "ms \<noteq> [] \<Longrightarrow> settled_part h loads opts T ms \<noteq> []"
  by (cases ms) (auto simp: settled_part_def)

lemma run_batch_start_runs:
  "batch \<noteq> [] \<Longrightarrow>
   start_runs (fst (run_batch h loads opts T i batch) @ es) 0 = length batch # start_runs es 0"
proof -
  assume b: "batch \<noteq> []"
  let ?ms = "zip [i ..< i + length batch] batch"
  have "?ms \<noteq> []" using b by (cases batch) (simp_all add: upt_conv_Cons)
  then have "sort_key (\<lambda>(n, url). settle_time (loads n) T) ?ms \<noteq> []"
    by (metis length_sort length_0_conv)
  then have ne: "settled_part h loads opts T (sort_key (\<lambda>(n, url). settle_time (loads n) T) ?ms) \<noteq> []"
    by (rule settled_part_nonempty)
  have l: "length batch \<noteq> 0" using b by simp
  show ?thesis
    using l by (simp add: run_batch_events start_runs_starts
        start_runs_others[OF ne settled_part_all_no_start])
qed

lemma batch_loop_start_blocks:
  "start_runs (fst (batch_loop h loads us opts T B i)) 0 = map (\<lambda>(j, batch). length batch) (batches us B i)"
proof (induction h loads us opts T B i rule: batch_loop.induct)
  case (1 h loads us opts T B i)
  let ?k = "nat (getOptimalBatchSize B)"
  show ?case
  proof (cases "i < length us")
    case True
    have ne: "take ?k (drop i us) \<noteq> []" using True getOptimalBatchSize_pos[of B] by simp
    from 1[OF True] show ?thesis
      by (simp add: batch_loop_unfold[OF True] batches_unfold[OF True] slice_step
          run_batch_start_runs[OF ne])
  next
    case False
    then show ?thesis by (simp add: batch_loop_done batches_done)
  qed
qed

subsection \<open>The loop of a processing cycle\<close>

lemma count_after_le: "count_after p t \<le> Suc p" "p \<le> count_after p t"
  by (simp_all add: count_after_def split: list.splits)

lemma launched_after_length: "length (launched_after p t l) + p = length l + count_after p t"
  by (simp add: launched_after_def count_after_def split: list.splits)

lemma idle_loop_launched_bound:
  "p \<le> c \<Longrightarrow> length (snd (idle_loop c p q l)) + p \<le> length l + c"
proof (induction c p q l rule: idle_loop.induct)
  case (1 c p l)
  then show ?case by simp
next
  case (2 c p t q l)
  show ?case
  proof (cases "p < c")
    case True
    have "count_after p t \<le> c" using True count_after_le(1)[of p t] by simp
    with 2 True have "length (snd (idle_loop c (count_after p t) (queue_after t q) (launched_after p t l)))
        + count_after p t \<le> length (launched_after p t l) + c" by simp
    with launched_after_length[of p t l] True show ?thesis by simp
  next
    case False
    with 2 show ?thesis by simp
  qed
qed

lemma queue_after_nonempty:
  "list_all nonempty_urls (t # q) \<Longrightarrow> list_all nonempty_urls (queue_after t q)"
  by (cases "urls t") (auto simp: queue_after_def nonempty_urls_def)

lemma idle_loop_popped:
  "list_all nonempty_urls q \<Longrightarrow>
   queued_urls (fst (idle_loop c p q l)) + length (snd (idle_loop c p q l)) = queued_urls q + length l"
proof (induction c p q l rule: idle_loop.induct)
  case (1 c p l)
  then show ?case by simp
next
  case (2 c p t q l)
  show ?case
  proof (cases "p < c")
    case True
    have step: "queued_urls (queue_after t q) + length (launched_after p t l) = queued_urls (t # q) + length l"
      using 2(2) by (cases "urls t") (auto simp: queued_urls_def queue_after_def launched_after_def nonempty_urls_def)
    from 2 True queue_after_nonempty[of t q] show ?thesis using step by simp
  next
    case False
    then show ?thesis by simp
  qed
qed

lemma requeued_Cons:
  "requeued (t # ts) = (if tl (urls t) \<noteq> [] then [pop_front t] else []) @ requeued ts"
  by (simp add: requeued_def pop_front_def)

lemma idle_loop_round:
  "n \<le> length q \<Longrightarrow> list_all launchable (take n q) \<Longrightarrow>
   idle_loop (p + n) p q l =
     (drop n q @ requeued (take n q),
      l @ map (\<lambda>(k, task). (k, hd (urls task), options task)) (zip [p ..< p + n] (take n q)))"
proof (induction n arbitrary: p q l)
  case 0
  then show ?case by (cases q) (simp_all add: requeued_def)
next
  case (Suc n)
  then obtain t q' where q: "q = t # q'" by (cases q) auto
  from Suc.prems q have lt: "launchable t" and rest: "list_all launchable (take n q')" and n: "n \<le> length q'"
    by simp_all
  from lt obtain u us where u: "urls t = u # us" "u \<noteq> []"
    by (auto simp: launchable_def split: list.splits)
  let ?extra = "if us \<noteq> [] then [pop_front t] else []"
  have qa: "queue_after t q' = q' @ ?extra"
    by (simp add: queue_after_def pop_front_def u)
  have ca: "count_after p t = Suc p" by (simp add: count_after_def u)
  have la: "launched_after p t l = l @ [(p, u, options t)]" by (simp add: launched_after_def u)
  have tk: "take n (q' @ ?extra) = take n q'" using n by simp
  have "idle_loop (p + Suc n) p q l = idle_loop (Suc p + n) (Suc p) (q' @ ?extra) (l @ [(p, u, options t)])"
    by (simp add: q qa ca la)
  also have "\<dots> = (drop n (q' @ ?extra) @ requeued (take n (q' @ ?extra)),
      (l @ [(p, u, options t)]) @ map (\<lambda>(k, task). (k, hd (urls task), options task))
         (zip [Suc p ..< Suc p + n] (take n (q' @ ?extra))))"
    by (rule Suc.IH) (use n rest tk in auto)
  also have "\<dots> = (drop (Suc n) q @ requeued (take (Suc n) q),
      l @ map (\<lambda>(k, task). (k, hd (urls task), options task)) (zip [p ..< p + Suc n] (take (Suc n) q)))"
    using n by (simp add: tk q requeued_Cons u upt_conv_Cons del: upt_Suc)
  finally show ?case .
qed

subsection \<open>The slot invariant\<close>

lemma scheduleIdleWork_cases:
  "scheduleIdleWork h st =
     (if isIdleProcessing st \<or> idleQueue st = [] then st
      else if has_requestIdleCallback h then
        st\<lparr>isIdleProcessing := True, idleCallbacks := idleCallbacks st + 1,
           events := events st @ [FlagWrite True, IdleCallbackRequested]\<rparr>
      else
        st\<lparr>isIdleProcessing := True, timers := timers st @ [(clock st + 50, FallbackIdle)],
           events := events st @ [FlagWrite True, TimerSet 50 FallbackIdle]\<rparr>)"
  by (simp add: scheduleIdleWork_def set_flag_def emit_def requestIdleCallback_def setTimeout_def Let_def)

lemma scheduleIdleWork_invariant: "slot_invariant st \<Longrightarrow> slot_invariant (scheduleIdleWork h st)"
  by (auto simp: scheduleIdleWork_cases slot_invariant_def pending_slots_def split: if_splits)

lemma scheduleIdleWork_queue [simp]: "idleQueue (scheduleIdleWork h st) = idleQueue st"
  by (simp add: scheduleIdleWork_cases)

lemma start_events_flat:
  "concat (map (\<lambda>(n, url, opts). loadSingleAsset_start n url) launched)
     = map (\<lambda>(n, url, opts). LoadStarted n url) launched"
  by (induction launched) (auto simp: loadSingleAsset_start_def)

lemma after_clear_invariant: "pending_slots st = 0 \<Longrightarrow> slot_invariant (after_clear h st)"
proof -
  assume "pending_slots st = 0"
  then have "slot_invariant (set_flag False st)"
    by (simp add: slot_invariant_def pending_slots_def set_flag_def emit_def)
  then show ?thesis by (simp add: after_clear_def Let_def scheduleIdleWork_invariant)
qed

lemma processIdleQueue_paths:
  "processIdleQueue h hid deadline st =
     (if shouldPauseIdleLoading hid then (setTimeout Reschedule 1000 (set_flag False st), Inr ())
      else case deadline of
        Inl thrown \<Rightarrow> (st, Inl thrown)
      | Inr timeRemaining \<Rightarrow>
          if calculateOptimalBatchSize timeRemaining = 0 \<or> idleQueue st = [] then (after_clear h st, Inr ())
          else (after_clear h
                  (emit (map (\<lambda>(n, url, opts). LoadStarted n url)
                           (snd (idle_loop (calculateOptimalBatchSize timeRemaining) 0 (idleQueue st) [])))
                     (st\<lparr>idleQueue := fst (idle_loop (calculateOptimalBatchSize timeRemaining) 0 (idleQueue st) [])\<rparr>)),
                Inr ()))"
  by (simp add: processIdleQueue_def after_clear_def Let_def start_events_flat split: sum.splits prod.splits)

lemma idle_callback_invariant:
  "pending_slots st = 0 \<Longrightarrow> slot_invariant (idle_callback h hid deadline st)"
proof -
  assume p: "pending_slots st = 0"
  have hidden: "slot_invariant (setTimeout Reschedule 1000 (set_flag False st))"
    using p by (simp add: slot_invariant_def pending_slots_def set_flag_def emit_def setTimeout_def)
  have thrown: "slot_invariant (set_flag False (emit es st))" for es
    using p by (simp add: slot_invariant_def pending_slots_def set_flag_def emit_def)
  have launched: "pending_slots (emit es (st\<lparr>idleQueue := q\<rparr>)) = 0" for es q
    using p by (simp add: pending_slots_def emit_def)
  show ?thesis
    by (simp add: idle_callback_def processIdleQueue_paths hidden thrown
        after_clear_invariant[OF p] after_clear_invariant[OF launched] split: sum.splits)
qed

lemma filter_remove_nth:
  "k < length xs \<Longrightarrow>
   length (filter P xs) = length (filter P (remove_nth k xs)) + (if P (xs ! k) then 1 else 0)"
proof -
  assume k: "k < length xs"
  have "xs = take k xs @ (xs ! k) # drop (Suc k) xs" using k by (simp add: id_take_nth_drop)
  then have "length (filter P xs) = length (filter P (take k xs @ (xs ! k) # drop (Suc k) xs))" by simp
  then show ?thesis by (simp add: remove_nth_def)
qed

lemma loadResources_invariant:
  "slot_invariant st \<Longrightarrow> slot_invariant (fst (loadResources h loads resources opts st))"
proof -
  assume i: "slot_invariant st"
  have a: "slot_invariant (addIdleTask us o' st)" for us o'
    using i by (simp add: slot_invariant_def pending_slots_def addIdleTask_def)
  have b: "slot_invariant (emit es st)" for es
    using i by (simp add: slot_invariant_def pending_slots_def emit_def)
  show ?thesis
    by (simp add: loadResources_def Let_def i b scheduleIdleWork_invariant[OF a])
qed

lemma host_step_invariant: "slot_invariant st \<Longrightarrow> slot_invariant (host_step h st ev)"
proof (cases ev)
  case (Call loads resources opts)
  assume "slot_invariant st"
  then show ?thesis by (simp add: Call loadResources_invariant)
next
  case (IdleCallbackFires hid deadline)
  assume i: "slot_invariant st"
  show ?thesis
  proof (cases "idleCallbacks st = 0")
    case True
    then show ?thesis using i by (simp add: IdleCallbackFires)
  next
    case False
    with i have "pending_slots (st\<lparr>idleCallbacks := idleCallbacks st - 1\<rparr>) = 0"
      by (auto simp: slot_invariant_def pending_slots_def split: if_splits)
    from idle_callback_invariant[OF this] False show ?thesis by (simp add: IdleCallbackFires)
  qed
next
  case (TimerFires k hid)
  assume i: "slot_invariant st"
  show ?thesis
  proof (cases "k < length (timers st) \<and> fst (timers st ! k) \<le> clock st")
    case False
    then show ?thesis using i by (auto simp: TimerFires)
  next
    case True
    let ?st1 = "st\<lparr>timers := remove_nth k (timers st)\<rparr>"
    let ?P = "\<lambda>(due, callback). callback = FallbackIdle"
    define b where "b = length (filter ?P (timers st))"
    define b' where "b' = length (filter ?P (remove_nth k (timers st)))"
    have len: "b = b' + (if ?P (timers st ! k) then 1 else 0)"
      unfolding b_def b'_def using True by (simp only: filter_remove_nth)
    have inv: "idleCallbacks st + b = (if isIdleProcessing st then 1 else 0)"
      using i by (simp add: slot_invariant_def pending_slots_def b_def)
    have p1: "pending_slots ?st1 = idleCallbacks st + b'"
      by (simp add: pending_slots_def b'_def)
    have f1: "isIdleProcessing ?st1 = isIdleProcessing st" by simp
    show ?thesis
    proof (cases "snd (timers st ! k)")
      case FallbackIdle
      then have P: "?P (timers st ! k)" by (simp add: case_prod_beta)
      with inv len have "idleCallbacks st + b' = 0" by (simp split: if_splits)
      then have "pending_slots ?st1 = 0" by (simp only: p1)
      from idle_callback_invariant[OF this] True FallbackIdle show ?thesis
        by (simp add: TimerFires fallback_callback_def Let_def)
    next
      case Reschedule
      then have P: "\<not> ?P (timers st ! k)" by (simp add: case_prod_beta)
      with len have "b' = b" by simp
      with inv have "slot_invariant ?st1" by (simp only: slot_invariant_def p1 f1)
      from scheduleIdleWork_invariant[OF this] True Reschedule show ?thesis
        by (simp add: TimerFires Let_def)
    qed
  qed
next
  case (TimePasses d)
  assume "slot_invariant st"
  then show ?thesis by (simp add: TimePasses slot_invariant_def pending_slots_def)
qed

lemma run_invariant: "slot_invariant (run h evs)"
proof (induction evs rule: rev_induct)
  case Nil
  show ?case by (simp add: run_def initial_def slot_invariant_def pending_slots_def)
next
  case (snoc ev evs)
  then show ?case by (simp add: run_def host_step_invariant)
qed

subsection \<open>Slot requests in the trace\<close>

lemma guarded_weaken: "guarded_requests None es \<Longrightarrow> guarded_requests p es"
  by (cases es) (auto split: if_splits)

lemma guarded_append:
  "guarded_requests p xs \<Longrightarrow> guarded_requests None ys \<Longrightarrow> guarded_requests p (xs @ ys)"
  by (induction xs arbitrary: p) (auto simp: guarded_weaken)

lemma guarded_no_requests: "list_all (\<lambda>e. \<not> is_slot_request e) es \<Longrightarrow> guarded_requests p es"
  by (induction es arbitrary: p) auto

lemma scheduleIdleWork_events:
  "events (scheduleIdleWork h st) =
     events st @ (if isIdleProcessing st \<or> idleQueue st = [] then [] else [FlagWrite True, slot_request h])"
  by (simp add: scheduleIdleWork_cases slot_request_def)

lemma slot_request_is: "is_slot_request (slot_request h)"
  by (simp add: slot_request_def is_slot_request_def)

lemma after_clear_events:
  "events (after_clear h st) =
     events st @ FlagWrite False # (if idleQueue st = [] then [] else [FlagWrite True, slot_request h])"
  by (simp add: after_clear_def Let_def scheduleIdleWork_events set_flag_def emit_def)

lemma count_starts: "count_list (map (\<lambda>(n, url, opts). LoadStarted n url) launched) (FlagWrite b) = 0"
  by (induction launched) auto

lemma starts_no_requests:
  "list_all (\<lambda>e. \<not> is_slot_request e) (map (\<lambda>(n, url, opts). LoadStarted n url) launched)"
  by (induction launched) (auto simp: is_slot_request_def)

lemma idle_callback_events:
  "\<exists>block. events (idle_callback h hid deadline st) = events st @ block
      \<and> count_list block (FlagWrite False) = 1 \<and> guarded_requests None block"
proof (cases "shouldPauseIdleLoading hid")
  case True
  then have "events (idle_callback h hid deadline st) = events st @ [FlagWrite False, TimerSet 1000 Reschedule]"
    by (simp add: idle_callback_def processIdleQueue_paths setTimeout_def set_flag_def emit_def)
  then show ?thesis by (simp add: is_slot_request_def)
next
  case False
  show ?thesis
  proof (cases deadline)
    case (Inl thrown)
    with False have "events (idle_callback h hid deadline st) = events st @ [WarnIdleFailed thrown, FlagWrite False]"
      by (simp add: idle_callback_def processIdleQueue_paths set_flag_def emit_def)
    then show ?thesis by (simp add: is_slot_request_def)
  next
    case (Inr timeRemaining)
    let ?c = "calculateOptimalBatchSize timeRemaining"
    have tail: "count_list (FlagWrite False # (if q = [] then [] else [FlagWrite True, slot_request h])) (FlagWrite False) = 1
        \<and> guarded_requests None (FlagWrite False # (if q = [] then [] else [FlagWrite True, slot_request h]))"
      for q :: "idle_task list"
      by (simp add: is_slot_request_def slot_request_def)
    show ?thesis
    proof (cases "?c = 0 \<or> idleQueue st = []")
      case True
      with False Inr have "events (idle_callback h hid deadline st) =
          events st @ FlagWrite False # (if idleQueue st = [] then [] else [FlagWrite True, slot_request h])"
        by (simp add: idle_callback_def processIdleQueue_paths after_clear_events)
      with tail[of "idleQueue st"] show ?thesis by blast
    next
      case no: False
      let ?q = "fst (idle_loop ?c 0 (idleQueue st) [])"
      let ?starts = "map (\<lambda>(n, url, opts). LoadStarted n url) (snd (idle_loop ?c 0 (idleQueue st) []))"
      let ?tail = "FlagWrite False # (if ?q = [] then [] else [FlagWrite True, slot_request h])"
      from False Inr no have ev: "events (idle_callback h hid deadline st) = events st @ ?starts @ ?tail"
        by (simp add: idle_callback_def processIdleQueue_paths after_clear_events emit_def)
      have c: "count_list (?starts @ ?tail) (FlagWrite False) = 1"
        using tail[of ?q] by (simp add: count_starts)
      have g: "guarded_requests None (?starts @ ?tail)"
        by (rule guarded_append) (use tail[of ?q] in \<open>simp_all add: guarded_no_requests starts_no_requests\<close>)
      from ev c g show ?thesis by blast
    qed
  qed
qed

lemma idle_callback_clears_once:
  "count_list (new_events st (idle_callback h hid deadline st)) (FlagWrite False) = 1"
proof -
  from idle_callback_events[of h hid deadline st] obtain block where
    "events (idle_callback h hid deadline st) = events st @ block" "count_list block (FlagWrite False) = 1"
    by blast
  then show ?thesis by (simp add: new_events_def)
qed

lemma idle_callback_guarded:
  "guarded_requests None (events st) \<Longrightarrow> guarded_requests None (events (idle_callback h hid deadline st))"
proof -
  assume g: "guarded_requests None (events st)"
  from idle_callback_events[of h hid deadline st] obtain block where
    "events (idle_callback h hid deadline st) = events st @ block" "guarded_requests None block"
    by blast
  with g show ?thesis by (simp add: guarded_append)
qed

lemma scheduleIdleWork_guarded:
  "guarded_requests None (events st) \<Longrightarrow> guarded_requests None (events (scheduleIdleWork h st))"
proof -
  assume g: "guarded_requests None (events st)"
  have "guarded_requests None (if isIdleProcessing st \<or> idleQueue st = [] then [] else [FlagWrite True, slot_request h])"
    by (simp add: is_slot_request_def)
  with g show ?thesis by (simp only: scheduleIdleWork_events guarded_append)
qed

lemma run_batch_no_requests:
  "e \<in> set (fst (run_batch h loads opts T i batch)) \<Longrightarrow> \<not> is_slot_request e"
  by (auto simp: run_batch_events settled_part_def loadSingleAsset_settle_events handleError_events
      is_slot_request_def split: sum.splits option.splits callback_result.splits)

lemma batch_loop_no_requests:
  "e \<in> set (fst (batch_loop h loads us opts T B i)) \<Longrightarrow> \<not> is_slot_request e"
  using run_batch_no_requests by (auto simp: batch_loop_batches)

lemma immediate_chain_eq: "immediate_chain h loads us opts = loadAssetsBatch h loads us opts"
  by (simp add: immediate_chain_def try_catch_def loadAssetsBatch_loop batch_loop_result)

lemma loadResources_guarded:
  "guarded_requests None (events st) \<Longrightarrow>
   guarded_requests None (events (fst (loadResources h loads resources opts st)))"
proof -
  assume g: "guarded_requests None (events st)"
  have a: "guarded_requests None (events (scheduleIdleWork h (addIdleTask us o' st)))" for us o'
    by (rule scheduleIdleWork_guarded) (simp add: addIdleTask_def g)
  have "list_all (\<lambda>e. \<not> is_slot_request e) (fst (immediate_chain h loads us o'))" for us o'
    using batch_loop_no_requests by (auto simp: immediate_chain_eq loadAssetsBatch_loop list_all_iff)
  then have b: "guarded_requests None (events (emit (fst (immediate_chain h loads us o')) st))" for us o'
    using g by (simp add: emit_def guarded_append guarded_no_requests)
  show ?thesis by (simp add: loadResources_def Let_def g a b)
qed

lemma host_step_guarded:
  "guarded_requests None (events st) \<Longrightarrow> guarded_requests None (events (host_step h st ev))"
proof (cases ev)
  case (Call loads resources opts)
  assume "guarded_requests None (events st)"
  then show ?thesis by (simp add: Call loadResources_guarded)
next
  case (IdleCallbackFires hid deadline)
  assume g: "guarded_requests None (events st)"
  then have "guarded_requests None (events (st\<lparr>idleCallbacks := idleCallbacks st - 1\<rparr>))" by simp
  from idle_callback_guarded[OF this] g show ?thesis by (simp add: IdleCallbackFires)
next
  case (TimerFires k hid)
  assume g: "guarded_requests None (events st)"
  then have g1: "guarded_requests None (events (st\<lparr>timers := remove_nth k (timers st)\<rparr>))" by simp
  from idle_callback_guarded[OF g1] scheduleIdleWork_guarded[OF g1] g show ?thesis
    by (simp add: TimerFires Let_def fallback_callback_def split: timer_callback.splits)
next
  case (TimePasses d)
  assume "guarded_requests None (events st)"
  then show ?thesis by (simp add: TimePasses)
qed

lemma run_guarded: "guarded_requests None (events (run h evs))"
proof (induction evs rule: rev_induct)
  case Nil
  show ?case by (simp add: run_def initial_def)
next
  case (snoc ev evs)
  then show ?case by (simp add: run_def host_step_guarded)
qed

subsection \<open>The backoff after a hidden cycle\<close>

lemma processIdleQueue_hidden:
  "processIdleQueue h (Some True) deadline st =
     (st\<lparr>isIdleProcessing := False,
         timers := timers st @ [(clock st + 1000, Reschedule)],
         events := events st @ [FlagWrite False, TimerSet 1000 Reschedule]\<rparr>, Inr ())"
  by (simp add: processIdleQueue_def shouldPauseIdleLoading_def setTimeout_def set_flag_def emit_def)

lemma scheduleIdleWork_clock [simp]: "clock (scheduleIdleWork h st) = clock st"
  by (simp add: scheduleIdleWork_cases)

lemma after_clear_clock [simp]: "clock (after_clear h st) = clock st"
  by (simp add: after_clear_def Let_def set_flag_def emit_def)

lemma idle_callback_clock [simp]: "clock (idle_callback h hid deadline st) = clock st"
  by (simp add: idle_callback_def processIdleQueue_paths setTimeout_def set_flag_def emit_def
      split: sum.splits)

lemma loadResources_clock [simp]: "clock (fst (loadResources h loads resources opts st)) = clock st"
  by (simp add: loadResources_def Let_def addIdleTask_def emit_def)

lemma host_step_clock: "clock st \<le> clock (host_step h st ev)"
  by (cases ev) (simp_all add: Let_def fallback_callback_def split: timer_callback.splits)

lemma quiet_until_due:
  assumes c: "idleCallbacks s0 = 0" and q: "list_all no_call evs"
    and w: "list_all (\<lambda>(due, callback). clock (foldl (host_step h) s0 evs) < due) (timers s0)"
  shows "foldl (host_step h) s0 evs = s0\<lparr>clock := clock (foldl (host_step h) s0 evs)\<rparr>"
  using q w
proof (induction evs rule: rev_induct)
  case Nil
  show ?case by simp
next
  case (snoc ev evs)
  let ?s = "foldl (host_step h) s0 evs"
  from snoc.prems have q: "list_all no_call evs" and nc: "no_call ev" by simp_all
  from snoc.prems(2) have w': "list_all (\<lambda>(due, callback). clock (host_step h ?s ev) < due) (timers s0)"
    by simp
  have mono: "clock ?s \<le> clock (host_step h ?s ev)" by (rule host_step_clock)
  have ws: "list_all (\<lambda>(due, callback). clock ?s < due) (timers s0)"
    using w' mono by (auto simp: list_all_iff)
  from snoc.IH[OF q ws] have s: "?s = s0\<lparr>clock := clock ?s\<rparr>" .
  have tm: "timers ?s = timers s0" and ic: "idleCallbacks ?s = 0"
    by (subst s, simp add: c)+
  have "host_step h ?s ev = s0\<lparr>clock := clock (host_step h ?s ev)\<rparr>"
  proof (cases ev)
    case (Call loads resources opts)
    with nc show ?thesis by (simp add: no_call_def)
  next
    case (IdleCallbackFires hid dl)
    then have "host_step h ?s ev = ?s" by (simp add: ic)
    with s show ?thesis by simp
  next
    case (TimerFires k hid)
    have n: "(k < length (timers ?s) \<and> fst (timers ?s ! k) \<le> clock ?s) = False"
    proof (cases "k < length (timers s0)")
      case True
      then have "timers s0 ! k \<in> set (timers s0)" by simp
      with ws have "clock ?s < fst (timers s0 ! k)" by (auto simp: list_all_iff)
      then show ?thesis by (simp add: tm)
    next
      case False
      then show ?thesis by (simp add: tm)
    qed
    have "host_step h ?s ev = ?s" unfolding TimerFires host_step.simps n by simp
    with s show ?thesis by simp
  next
    case (TimePasses d)
    then have "host_step h ?s ev = ?s\<lparr>clock := clock ?s + d\<rparr>" by simp
    also have "\<dots> = (s0\<lparr>clock := clock ?s\<rparr>)\<lparr>clock := clock ?s + d\<rparr>" using s by simp
    finally show ?thesis by simp
  qed
  then show ?case by simp
qed

lemma backoff_quiet:
  assumes p: "pending_slots st = 0" and q: "list_all no_call evs"
    and w: "list_all (\<lambda>(due, callback).
              clock (foldl (host_step h) (fst (processIdleQueue h (Some True) deadline st)) evs) < due)
            (timers (fst (processIdleQueue h (Some True) deadline st)))"
  shows "foldl (host_step h) (fst (processIdleQueue h (Some True) deadline st)) evs
       = (fst (processIdleQueue h (Some True) deadline st))
           \<lparr>clock := clock (foldl (host_step h) (fst (processIdleQueue h (Some True) deadline st)) evs)\<rparr>"
proof -
  from p have "idleCallbacks (fst (processIdleQueue h (Some True) deadline st)) = 0"
    by (simp add: processIdleQueue_hidden pending_slots_def)
  from quiet_until_due[OF this q w] show ?thesis .
qed

lemma empty_queue_quiet:
  assumes e: "idleQueue s0 = []" and p: "pending_slots s0 = 0" and q: "list_all no_call evs"
  shows "idleQueue (foldl (host_step h) s0 evs) = []
       \<and> pending_slots (foldl (host_step h) s0 evs) = 0
       \<and> events (foldl (host_step h) s0 evs) = events s0"
  using q
proof (induction evs rule: rev_induct)
  case Nil
  from e p show ?case by simp
next
  case (snoc ev evs)
  let ?s = "foldl (host_step h) s0 evs"
  from snoc.prems have q: "list_all no_call evs" and nc: "no_call ev" by simp_all
  from snoc.IH[OF q] have i: "idleQueue ?s = []" "pending_slots ?s = 0" "events ?s = events s0"
    by simp_all
  from i(2) have ic: "idleCallbacks ?s = 0"
    and nf: "filter (\<lambda>(due, callback). callback = FallbackIdle) (timers ?s) = []"
    by (simp_all add: pending_slots_def)
  have "idleQueue (host_step h ?s ev) = [] \<and> pending_slots (host_step h ?s ev) = 0
        \<and> events (host_step h ?s ev) = events s0"
  proof (cases ev)
    case (Call loads resources opts)
    with nc show ?thesis by (simp add: no_call_def)
  next
    case (IdleCallbackFires hid dl)
    then have "host_step h ?s ev = ?s" by (simp add: ic)
    with i show ?thesis by simp
  next
    case (TimerFires k hid)
    show ?thesis
    proof (cases "k < length (timers ?s) \<and> fst (timers ?s ! k) \<le> clock ?s")
      case True
      then have k: "k < length (timers ?s)" by simp
      then have "timers ?s ! k \<in> set (timers ?s)" by simp
      with nf have r: "snd (timers ?s ! k) = Reschedule"
        by (cases "timers ?s ! k"; cases "snd (timers ?s ! k)") (auto simp: filter_empty_conv)
      let ?s1 = "?s\<lparr>timers := remove_nth k (timers ?s)\<rparr>"
      have step: "host_step h ?s ev = scheduleIdleWork h ?s1"
        unfolding TimerFires using True r by (simp add: Let_def)
      have noop: "scheduleIdleWork h ?s1 = ?s1" using i(1) by (simp add: scheduleIdleWork_def)
      from filter_remove_nth[OF k, of "\<lambda>(due, callback). callback = FallbackIdle"] nf
      have "length (filter (\<lambda>(due, callback). callback = FallbackIdle) (remove_nth k (timers ?s))) = 0"
        by simp
      then have "pending_slots ?s1 = 0" using ic by (simp add: pending_slots_def)
      with i show ?thesis by (simp add: step noop)
    next
      case False
      then have n: "(k < length (timers ?s) \<and> fst (timers ?s ! k) \<le> clock ?s) = False" by simp
      have "host_step h ?s ev = ?s" unfolding TimerFires host_step.simps n by simp
      with i show ?thesis by simp
    qed
  next
    case (TimePasses d)
    with i show ?thesis by (simp add: pending_slots_def)
  qed
  then show ?case by simp
qed

lemma cycle_state_no_slot:
  "idleCallbacks (run h evs) \<noteq> 0 \<Longrightarrow>
   pending_slots ((run h evs)\<lparr>idleCallbacks := idleCallbacks (run h evs) - 1\<rparr>) = 0"
  using run_invariant[of h evs]
  by (simp add: slot_invariant_def pending_slots_def split: if_splits)

lemma fallback_cycle_state_no_slot:
  "k < length (timers (run h evs)) \<Longrightarrow> snd (timers (run h evs) ! k) = FallbackIdle \<Longrightarrow>
   pending_slots ((run h evs)\<lparr>timers := remove_nth k (timers (run h evs))\<rparr>) = 0"
proof -
  assume k: "k < length (timers (run h evs))" and f: "snd (timers (run h evs) ! k) = FallbackIdle"
  from f have P: "(\<lambda>(due, callback). callback = FallbackIdle) (timers (run h evs) ! k)"
    by (simp add: case_prod_beta)
  from filter_remove_nth[OF k, of "\<lambda>(due, callback). callback = FallbackIdle"] P
  have "length (filter (\<lambda>(due, callback). callback = FallbackIdle) (timers (run h evs)))
      = length (filter (\<lambda>(due, callback). callback = FallbackIdle) (remove_nth k (timers (run h evs)))) + 1"
    by simp
  with run_invariant[of h evs] show ?thesis
    by (simp add: slot_invariant_def pending_slots_def split: if_splits)
qed

subsection \<open>Validation and the entry point\<close>






lemma settled_part_on_error:
  "OnErrorCalled u e \<in> set (settled_part h loads opts T ms) \<Longrightarrow> u \<in> snd ` set ms"
  by (auto simp: settled_part_def loadSingleAsset_settle_events handleError_events
      split: sum.splits option.splits callback_result.splits intro: rev_image_eqI)

lemma run_batch_on_error:
  "OnErrorCalled u e \<in> set (fst (run_batch h loads opts T i batch)) \<Longrightarrow> u \<in> set batch"
proof -
  assume "OnErrorCalled u e \<in> set (fst (run_batch h loads opts T i batch))"
  then have "OnErrorCalled u e \<in> set (settled_part h loads opts T
      (sort_key (\<lambda>(n, url). settle_time (loads n) T) (zip [i ..< i + length batch] batch)))"
    by (auto simp: run_batch_events)
  from settled_part_on_error[OF this] obtain n where "(n, u) \<in> set (zip [i ..< i + length batch] batch)"
    by auto
  then show ?thesis by (rule set_zip_rightD)
qed

lemma batch_loop_on_error:
  "OnErrorCalled u e \<in> set (fst (batch_loop h loads us opts T B i)) \<Longrightarrow> u \<in> set us"
proof (induction h loads us opts T B i rule: batch_loop.induct)
  case (1 h loads us opts T B i)
  show ?case
  proof (cases "i < length us")
    case True
    from "1.prems" consider
      "OnErrorCalled u e \<in> set (fst (run_batch h loads opts T i (take (nat (getOptimalBatchSize B)) (drop i us))))"
      | "OnErrorCalled u e \<in> set (fst (batch_loop h loads us opts T B (i + nat (getOptimalBatchSize B))))"
      by (auto simp: batch_loop_unfold[OF True])
    then show ?thesis
    proof cases
      case 1
      from run_batch_on_error[OF this] show ?thesis by (meson in_set_dropD in_set_takeD)
    next
      case 2
      with "1.IH"[OF True] show ?thesis by simp
    qed
  next
    case False
    with "1.prems" show ?thesis by (simp add: batch_loop_done)
  qed
qed

lemma loadResources_immediate:
  "strategy opts \<noteq> Some Idle \<Longrightarrow>
   fst (loadResources h loads resources opts st) =
     emit (fst (loadAssetsBatch h loads (prepareResourcesForLoading resources) (passed_options opts))) st"
proof -
  assume "strategy opts \<noteq> Some Idle"
  then have c: "(case strategy opts of None \<Rightarrow> Immediate | Some s \<Rightarrow> s) \<noteq> Idle"
    by (cases "strategy opts") auto
  have e: "emit (fst (loadAssetsBatch h loads [] o')) st = st" for o'
    by (simp add: loadAssetsBatch_loop batch_loop_done emit_def)
  show ?thesis
    by (simp add: loadResources_def Let_def c immediate_chain_eq passed_options_def e)
qed

lemma loadResources_idle:
  "strategy opts = Some Idle \<Longrightarrow>
   fst (loadResources h loads resources opts st) =
     (if prepareResourcesForLoading resources = [] then st
      else scheduleIdleWork h (addIdleTask (prepareResourcesForLoading resources) (passed_options opts) st))"
  by (simp add: loadResources_def Let_def passed_options_def)

lemma loadResources_returns: "snd (loadResources h loads resources opts st) = Inr ()"
  by (simp add: loadResources_def Let_def)

lemma new_events_emit: "new_events st (emit es st) = es"
  by (simp add: new_events_def emit_def)


lemma immediate_on_error:
  "strategy opts \<noteq> Some Idle \<Longrightarrow>
   OnErrorCalled u e \<in> set (new_events st (fst (loadResources h loads resources opts st))) \<Longrightarrow>
   u \<in> set (prepareResourcesForLoading resources)"
  by (auto simp: loadResources_immediate new_events_emit loadAssetsBatch_loop dest: batch_loop_on_error)

lemma idle_new_events:
  "strategy opts = Some Idle \<Longrightarrow>
   new_events st (fst (loadResources h loads resources opts st))
     = (if prepareResourcesForLoading resources = [] \<or> isIdleProcessing st then []
        else [FlagWrite True, slot_request h])"
  by (simp add: loadResources_idle new_events_def scheduleIdleWork_events addIdleTask_def)


lemma slot_request_kind:
  "\<not> is_start (slot_request h)" "slot_request h \<noteq> OnErrorCalled u e" "OnErrorCalled u e \<noteq> slot_request h"
  "\<not> is_start (FlagWrite b)"
  by (simp_all add: slot_request_def is_start_def)

subsection \<open>Launches of a processing cycle\<close>

lemma after_clear_queue [simp]: "idleQueue (after_clear h st) = idleQueue st"
  by (simp add: after_clear_def Let_def set_flag_def emit_def)

lemma filter_start_launched:
  "filter is_start (map (\<lambda>(n, url, opts). LoadStarted n url) launched)
     = map (\<lambda>(n, url, opts). LoadStarted n url) launched"
  by (induction launched) (auto simp: is_start_def)

lemma processIdleQueue_launches:
  "\<not> shouldPauseIdleLoading hid \<Longrightarrow> calculateOptimalBatchSize t \<noteq> 0 \<Longrightarrow> idleQueue st \<noteq> [] \<Longrightarrow>
   idleQueue (fst (processIdleQueue h hid (Inr t) st))
     = fst (idle_loop (calculateOptimalBatchSize t) 0 (idleQueue st) [])
   \<and> filter is_start (new_events st (fst (processIdleQueue h hid (Inr t) st)))
       = map (\<lambda>(n, url, opts). LoadStarted n url)
           (snd (idle_loop (calculateOptimalBatchSize t) 0 (idleQueue st) []))"
  by (simp add: processIdleQueue_paths after_clear_events new_events_def emit_def
      filter_start_launched slot_request_kind)


section \<open>The claims\<close>

subsection \<open>C1: one report for a load that times out\<close>

text \<open>
  C1. A load whose promise settles neither way within the timeout is to be reported once:
  one log line and at most one call of \<^verbatim>\<open>onError\<close>. \<^verbatim>\<open>loadSingleAsset\<close> does
  report it once and then rejects (\<open>timeout_reported_once_by_load\<close>), and
  \<^verbatim>\<open>Promise.allSettled\<close> of the immediate strategy absorbs that rejection. The idle
  strategy attaches \<^verbatim>\<open>.catch(error => handleError(error, url, options.onError))\<close> to
  the same promise, so there the failure is reported a second time
  (\<open>idle_dispatch_events\<close>): for a load of \<^verbatim>\<open>https://example.com/a.jpg\<close> that
  never settles, with a timeout of 1000 ms and a callback, the detached chain logs twice
  and calls the callback twice.
\<close>

theorem idle_timeout_reported_twice:
  "idle_dispatch True NeverSettles ''https://example.com/a.jpg''
     \<lparr>batchSize = Some 1, timeout = Some 1000, onError = Some (\<lambda>url error. Returns)\<rparr>
   = ([WarnLoadFailed ''https://example.com/a.jpg'' (timeout_error ''https://example.com/a.jpg''),
       OnErrorCalled ''https://example.com/a.jpg'' (timeout_error ''https://example.com/a.jpg''),
       WarnLoadFailed ''https://example.com/a.jpg'' (timeout_error ''https://example.com/a.jpg''),
       OnErrorCalled ''https://example.com/a.jpg'' (timeout_error ''https://example.com/a.jpg'')],
      Inr ())"
  by (simp add: idle_dispatch_def loadSingleAsset_settle_def try_catch_def and_then_def
      promise_race_def in_time_def timer_delay_def handleError_events)

subsection \<open>C2: what one processing cycle takes from the queue\<close>

text \<open>
  C2, as the code has it. In a processing cycle with candidate count \<open>c > 0\<close>: at most
  \<open>c\<close> loads are launched, and when every queued URL is a non-empty string exactly as
  many URLs leave the queue as loads are launched; each iteration takes the first URL of
  the task at the head of the queue and puts the task back at the tail when URLs remain;
  when the queue holds at least \<open>c\<close> tasks whose first URL is a non-empty string, the
  cycle takes exactly one URL from each of the first \<open>c\<close> tasks, in queue order, and
  leaves the untouched tasks in front of the re-queued ones. The queue that
  \<^verbatim>\<open>processIdleQueue\<close> leaves and the loads it starts are those of this loop.
\<close>

theorem idle_cycle_round_robin:
  "0 < c \<Longrightarrow>
   length (snd (idle_loop c 0 queue [])) \<le> c
   \<and> (list_all nonempty_urls queue \<longrightarrow>
        queued_urls (fst (idle_loop c 0 queue [])) + length (snd (idle_loop c 0 queue []))
          = queued_urls queue)
   \<and> idle_loop c 0 (task # queue) [] =
        idle_loop c (count_after 0 task)
          (if tl (urls task) \<noteq> [] then queue @ [pop_front task] else queue)
          (launched_after 0 task [])
   \<and> (c \<le> length queue \<and> list_all launchable (take c queue) \<longrightarrow>
        idle_loop c 0 queue [] =
          (drop c queue @ requeued (take c queue),
           map (\<lambda>(k, task). (k, hd (urls task), options task)) (zip [0 ..< c] (take c queue))))
   \<and> (\<not> shouldPauseIdleLoading document_hidden \<and> calculateOptimalBatchSize timeRemaining = c
        \<and> idleQueue st \<noteq> [] \<longrightarrow>
        idleQueue (fst (processIdleQueue h document_hidden (Inr timeRemaining) st))
          = fst (idle_loop c 0 (idleQueue st) [])
        \<and> filter is_start (new_events st (fst (processIdleQueue h document_hidden (Inr timeRemaining) st)))
            = map (\<lambda>(n, url, opts). LoadStarted n url) (snd (idle_loop c 0 (idleQueue st) [])))"
proof -
  assume c: "0 < c"
  have bound: "length (snd (idle_loop c 0 queue [])) \<le> c"
    using idle_loop_launched_bound[of 0 c queue "[]"] by simp
  have popped: "queued_urls (fst (idle_loop c 0 queue [])) + length (snd (idle_loop c 0 queue []))
          = queued_urls queue" if "list_all nonempty_urls queue"
    using idle_loop_popped[OF that, of c 0 "[]"] by simp
  have step: "idle_loop c 0 (task # queue) [] =
        idle_loop c (count_after 0 task)
          (if tl (urls task) \<noteq> [] then queue @ [pop_front task] else queue)
          (launched_after 0 task [])"
    using c by (simp add: queue_after_def pop_front_def)
  have round: "idle_loop c 0 queue [] =
          (drop c queue @ requeued (take c queue),
           map (\<lambda>(k, task). (k, hd (urls task), options task)) (zip [0 ..< c] (take c queue)))"
    if "c \<le> length queue" "list_all launchable (take c queue)"
    using idle_loop_round[OF that, of 0 "[]"] by simp
  have cycle: "idleQueue (fst (processIdleQueue h document_hidden (Inr timeRemaining) st))
          = fst (idle_loop c 0 (idleQueue st) [])
        \<and> filter is_start (new_events st (fst (processIdleQueue h document_hidden (Inr timeRemaining) st)))
            = map (\<lambda>(n, url, opts). LoadStarted n url) (snd (idle_loop c 0 (idleQueue st) []))"
    if "\<not> shouldPauseIdleLoading document_hidden" "calculateOptimalBatchSize timeRemaining = c"
      "idleQueue st \<noteq> []"
    using processIdleQueue_launches[OF that(1) _ that(3), of timeRemaining h] c that(2) by simp
  from bound popped step round cycle show ?thesis by blast
qed

theorem idle_cycle_round_robin_witness:
  "(0::nat) < 2
   \<and> list_all nonempty_urls
        [\<lparr>urls = [''a1.jpg'', ''a2.jpg''], options = \<lparr>batchSize = Some 1, timeout = None, onError = None\<rparr>\<rparr>,
         \<lparr>urls = [''b1.jpg''], options = \<lparr>batchSize = Some 1, timeout = None, onError = None\<rparr>\<rparr>,
         \<lparr>urls = [''c1.jpg''], options = \<lparr>batchSize = Some 1, timeout = None, onError = None\<rparr>\<rparr>]
   \<and> 2 \<le> length
        [\<lparr>urls = [''a1.jpg'', ''a2.jpg''], options = \<lparr>batchSize = Some 1, timeout = None, onError = None\<rparr>\<rparr>,
         \<lparr>urls = [''b1.jpg''], options = \<lparr>batchSize = Some 1, timeout = None, onError = None\<rparr>\<rparr>,
         \<lparr>urls = [''c1.jpg''], options = \<lparr>batchSize = Some 1, timeout = None, onError = None\<rparr>\<rparr>]
   \<and> list_all launchable (take 2
        [\<lparr>urls = [''a1.jpg'', ''a2.jpg''], options = \<lparr>batchSize = Some 1, timeout = None, onError = None\<rparr>\<rparr>,
         \<lparr>urls = [''b1.jpg''], options = \<lparr>batchSize = Some 1, timeout = None, onError = None\<rparr>\<rparr>,
         \<lparr>urls = [''c1.jpg''], options = \<lparr>batchSize = Some 1, timeout = None, onError = None\<rparr>\<rparr>])
   \<and> idle_loop 2 0
        [\<lparr>urls = [''a1.jpg'', ''a2.jpg''], options = \<lparr>batchSize = Some 1, timeout = None, onError = None\<rparr>\<rparr>,
         \<lparr>urls = [''b1.jpg''], options = \<lparr>batchSize = Some 1, timeout = None, onError = None\<rparr>\<rparr>,
         \<lparr>urls = [''c1.jpg''], options = \<lparr>batchSize = Some 1, timeout = None, onError = None\<rparr>\<rparr>] []
       = ([\<lparr>urls = [''c1.jpg''], options = \<lparr>batchSize = Some 1, timeout = None, onError = None\<rparr>\<rparr>,
           \<lparr>urls = [''a2.jpg''], options = \<lparr>batchSize = Some 1, timeout = None, onError = None\<rparr>\<rparr>],
          [(0, ''a1.jpg'', \<lparr>batchSize = Some 1, timeout = None, onError = None\<rparr>),
           (1, ''b1.jpg'', \<lparr>batchSize = Some 1, timeout = None, onError = None\<rparr>)])
   \<and> \<not> shouldPauseIdleLoading (Some False)
   \<and> calculateOptimalBatchSize 50 = 2
   \<and> idleQueue (initial\<lparr>idleQueue :=
        [\<lparr>urls = [''a1.jpg'', ''a2.jpg''], options = \<lparr>batchSize = Some 1, timeout = None, onError = None\<rparr>\<rparr>,
         \<lparr>urls = [''b1.jpg''], options = \<lparr>batchSize = Some 1, timeout = None, onError = None\<rparr>\<rparr>,
         \<lparr>urls = [''c1.jpg''], options = \<lparr>batchSize = Some 1, timeout = None, onError = None\<rparr>\<rparr>],
        isIdleProcessing := True\<rparr>) \<noteq> []
   \<and> filter is_start (new_events
        (initial\<lparr>idleQueue :=
          [\<lparr>urls = [''a1.jpg'', ''a2.jpg''], options = \<lparr>batchSize = Some 1, timeout = None, onError = None\<rparr>\<rparr>,
           \<lparr>urls = [''b1.jpg''], options = \<lparr>batchSize = Some 1, timeout = None, onError = None\<rparr>\<rparr>,
           \<lparr>urls = [''c1.jpg''], options = \<lparr>batchSize = Some 1, timeout = None, onError = None\<rparr>\<rparr>],
          isIdleProcessing := True\<rparr>)
        (fst (processIdleQueue \<lparr>has_requestIdleCallback = True, has_AbortController = True\<rparr>
               (Some False) (Inr 50)
               (initial\<lparr>idleQueue :=
                 [\<lparr>urls = [''a1.jpg'', ''a2.jpg''], options = \<lparr>batchSize = Some 1, timeout = None, onError = None\<rparr>\<rparr>,
                  \<lparr>urls = [''b1.jpg''], options = \<lparr>batchSize = Some 1, timeout = None, onError = None\<rparr>\<rparr>,
                  \<lparr>urls = [''c1.jpg''], options = \<lparr>batchSize = Some 1, timeout = None, onError = None\<rparr>\<rparr>],
                 isIdleProcessing := True\<rparr>))))
       = [LoadStarted 0 ''a1.jpg'', LoadStarted 1 ''b1.jpg'']"
proof -
  let ?o = "\<lparr>batchSize = Some 1, timeout = None, onError = None\<rparr>"
  let ?q = "[\<lparr>urls = [''a1.jpg'', ''a2.jpg''], options = ?o\<rparr>, \<lparr>urls = [''b1.jpg''], options = ?o\<rparr>,
             \<lparr>urls = [''c1.jpg''], options = ?o\<rparr>]"
  let ?h = "\<lparr>has_requestIdleCallback = True, has_AbortController = True\<rparr>"
  let ?st = "initial\<lparr>idleQueue := ?q, isIdleProcessing := True\<rparr>"
  have h0: "(0::nat) < 2" by simp
  have h1: "list_all nonempty_urls ?q" by (simp add: nonempty_urls_def)
  have h2: "2 \<le> length ?q" by simp
  have h3: "list_all launchable (take 2 ?q)" by (simp add: launchable_def take_Suc_conv_app_nth numeral_2_eq_2)
  have h4: "\<not> shouldPauseIdleLoading (Some False)" by (simp add: shouldPauseIdleLoading_def)
  have h5: "calculateOptimalBatchSize 50 = 2" by (simp add: calculateOptimalBatchSize_def)
  have h6: "idleQueue ?st \<noteq> []" by simp
  have q: "idleQueue ?st = ?q" by simp
  note inst = idle_cycle_round_robin[OF h0, of ?q _ "Some False" 50 ?st ?h]
  from inst h2 h3
  have "idle_loop 2 0 ?q [] =
          (drop 2 ?q @ requeued (take 2 ?q),
           map (\<lambda>(k, task). (k, hd (urls task), options task)) (zip [0 ..< 2] (take 2 ?q)))"
    by blast
  then have loop: "idle_loop 2 0 ?q [] =
      ([\<lparr>urls = [''c1.jpg''], options = ?o\<rparr>, \<lparr>urls = [''a2.jpg''], options = ?o\<rparr>],
       [(0, ''a1.jpg'', ?o), (1, ''b1.jpg'', ?o)])"
    by (simp add: requeued_def pop_front_def numeral_2_eq_2 upt_rec)
  from inst h4 h5 h6
  have "filter is_start (new_events ?st (fst (processIdleQueue ?h (Some False) (Inr 50) ?st)))
      = map (\<lambda>(n, url, opts). LoadStarted n url) (snd (idle_loop 2 0 (idleQueue ?st) []))"
    by blast
  then have cyc: "filter is_start (new_events ?st (fst (processIdleQueue ?h (Some False) (Inr 50) ?st)))
      = [LoadStarted 0 ''a1.jpg'', LoadStarted 1 ''b1.jpg'']"
    unfolding q loop by simp
  from h0 h1 h2 h3 loop h4 h5 h6 cyc show ?thesis by blast
qed

text \<open>
  C2 as stated (at most one URL per task and cycle) fails when the queue is shorter than
  \<open>c\<close>: the re-queued task reaches the head again. With a single task of two URLs and
  50 ms remaining (so \<open>c = 2\<close>), both URLs are launched in the same cycle.
\<close>

theorem idle_cycle_two_from_one_group:
  "length (idleQueue (initial\<lparr>idleQueue :=
        [\<lparr>urls = [''a.jpg'', ''b.jpg''], options = \<lparr>batchSize = Some 1, timeout = None, onError = None\<rparr>\<rparr>],
        isIdleProcessing := True\<rparr>)) = 1
   \<and> calculateOptimalBatchSize 50 = 2
   \<and> filter is_start (new_events
        (initial\<lparr>idleQueue :=
          [\<lparr>urls = [''a.jpg'', ''b.jpg''], options = \<lparr>batchSize = Some 1, timeout = None, onError = None\<rparr>\<rparr>],
          isIdleProcessing := True\<rparr>)
        (fst (processIdleQueue \<lparr>has_requestIdleCallback = True, has_AbortController = True\<rparr>
               (Some False) (Inr 50)
               (initial\<lparr>idleQueue :=
                 [\<lparr>urls = [''a.jpg'', ''b.jpg''], options = \<lparr>batchSize = Some 1, timeout = None, onError = None\<rparr>\<rparr>],
                 isIdleProcessing := True\<rparr>))))
       = [LoadStarted 0 ''a.jpg'', LoadStarted 1 ''b.jpg'']"
proof -
  let ?g = "\<lparr>urls = [''a.jpg'', ''b.jpg''], options = \<lparr>batchSize = Some 1, timeout = None, onError = None\<rparr>\<rparr>"
  let ?st = "initial\<lparr>idleQueue := [?g], isIdleProcessing := True\<rparr>"
  have c: "calculateOptimalBatchSize 50 = 2" by (simp add: calculateOptimalBatchSize_def)
  have loop: "idle_loop 2 0 [?g] [] =
      ([], [(0, ''a.jpg'', options ?g), (1, ''b.jpg'', options ?g)])"
    by (simp add: count_after_def queue_after_def launched_after_def)
  have q: "idleQueue ?st = [?g]" by simp
  have h1: "\<not> shouldPauseIdleLoading (Some False)" by (simp add: shouldPauseIdleLoading_def)
  have h2: "calculateOptimalBatchSize 50 \<noteq> 0" by (simp add: c)
  have h3: "idleQueue ?st \<noteq> []" by simp
  from processIdleQueue_launches[OF h1 h2 h3, of "\<lparr>has_requestIdleCallback = True, has_AbortController = True\<rparr>"]
  have "filter is_start (new_events ?st
          (fst (processIdleQueue \<lparr>has_requestIdleCallback = True, has_AbortController = True\<rparr>
                 (Some False) (Inr 50) ?st)))
      = map (\<lambda>(n, url, opts). LoadStarted n url)
          (snd (idle_loop (calculateOptimalBatchSize 50) 0 (idleQueue ?st) []))"
    by blast
  then have "filter is_start (new_events ?st
          (fst (processIdleQueue \<lparr>has_requestIdleCallback = True, has_AbortController = True\<rparr>
                 (Some False) (Inr 50) ?st)))
      = [LoadStarted 0 ''a.jpg'', LoadStarted 1 ''b.jpg'']"
    unfolding c q loop by simp
  with c show ?thesis by simp
qed

subsection \<open>C3: the entry point never throws\<close>

text \<open>
  C3. Whatever the resources, the options, the behaviour of the loads and of the callback:
  the call of \<^verbatim>\<open>loadResources\<close> returns normally, the promise chain that the immediate
  strategy leaves behind ends fulfilled, and so does the chain of every load launched by
  the idle strategy; no rejection is left unhandled.
\<close>

theorem loadResources_never_throws:
  "snd (loadResources h loads resources opts st) = Inr ()
   \<and> snd (immediate_chain h loads us load_opts) = Inr ()
   \<and> snd (idle_dispatch controller loadPromise url load_opts) = Inr ()"
  by (simp add: loadResources_returns immediate_chain_eq loadAssetsBatch_loop batch_loop_result
      idle_dispatch_result)

subsection \<open>C4: effective concurrency and the partition into batches\<close>

text \<open>
  C4. For every integer \<open>B\<close> the batch size used is \<open>k = min (max B 1) 2\<close>. The
  batches of the loop, concatenated, give back the URL list; the \<open>j\<close>-th batch starts at
  index \<open>j * k\<close> and holds the next \<open>k\<close> URLs (fewer at the end of the list); their
  number is the length of the list divided by \<open>k\<close>, rounded up. The events of
  \<^verbatim>\<open>loadAssetsBatch\<close> are those of these batches, one batch after the other: the loads
  of a batch are started in list order, then the batch settles. So the runs of starts in
  the trace have the sizes of the batches; at no point of the trace are more than \<open>k\<close>
  loads in flight; and once the first batch is started, \<open>k\<close> loads are in flight (all
  of them when the list is shorter). \<^verbatim>\<open>loadResources\<close> with five times
  \<^verbatim>\<open>x.jpg\<close> and \<open>batchSize = 5\<close>, under the immediate strategy, starts its loads in
  three runs of 2, 2 and 1, whatever the loads do.
\<close>

theorem batch_partition:
  "getOptimalBatchSize B = min (max B 1) 2
   \<and> concat (map snd (batches us B 0)) = us
   \<and> (\<forall>j < length (batches us B 0).
        batches us B 0 ! j =
          (j * nat (getOptimalBatchSize B),
           take (nat (getOptimalBatchSize B)) (drop (j * nat (getOptimalBatchSize B)) us)))
   \<and> length (batches us B 0)
       = (length us + nat (getOptimalBatchSize B) - 1) div nat (getOptimalBatchSize B)
   \<and> fst (loadAssetsBatch h loads us (opts\<lparr>batchSize := Some B\<rparr>))
       = concat (map (\<lambda>(i, batch).
                   map (\<lambda>(n, url). LoadStarted n url) (zip [i ..< i + length batch] batch)
                   @ settled_part h loads (opts\<lparr>batchSize := Some B\<rparr>) (timeout_of opts)
                       (sort_key (\<lambda>(n, url). settle_time (loads n) (timeout_of opts))
                          (zip [i ..< i + length batch] batch)))
           (batches us B 0))
   \<and> start_blocks (fst (loadAssetsBatch h loads us (opts\<lparr>batchSize := Some B\<rparr>)))
       = map (\<lambda>(i, batch). length batch) (batches us B 0)
   \<and> (\<forall>m. length (in_flight (take m (fst (loadAssetsBatch h loads us (opts\<lparr>batchSize := Some B\<rparr>)))))
            \<le> nat (getOptimalBatchSize B))
   \<and> in_flight (take (min (nat (getOptimalBatchSize B)) (length us))
                  (fst (loadAssetsBatch h loads us (opts\<lparr>batchSize := Some B\<rparr>))))
       = [0 ..< min (nat (getOptimalBatchSize B)) (length us)]
   \<and> start_blocks (new_events st (fst (loadResources h loads
          (Many [Str ''x.jpg'', Str ''x.jpg'', Str ''x.jpg'', Str ''x.jpg'', Str ''x.jpg''])
          (ropts\<lparr>batchSize := Some 5, strategy := None\<rparr>) st)))
       = [2, 2, 1]"
proof -
  let ?o = "opts\<lparr>batchSize := Some B\<rparr>"
  have T: "timeout_of ?o = timeout_of opts" by (simp add: timeout_of_def)
  have loop: "loadAssetsBatch h loads us ?o = batch_loop h loads us ?o (timeout_of opts) B 0"
    by (simp add: loadAssetsBatch_loop T)
  have nth: "\<forall>j < length (batches us B 0).
        batches us B 0 ! j =
          (j * nat (getOptimalBatchSize B),
           take (nat (getOptimalBatchSize B)) (drop (j * nat (getOptimalBatchSize B)) us))"
    using batches_nth[of _ us B 0] by simp
  have len: "length (batches us B 0)
       = (length us + nat (getOptimalBatchSize B) - 1) div nat (getOptimalBatchSize B)"
    using batches_length[of us B 0] by simp
  have cat: "concat (map snd (batches us B 0)) = us"
    using batches_concat[of us B 0] by simp
  have run: "fst (loadAssetsBatch h loads us ?o)
       = concat (map (\<lambda>(i, batch).
                   map (\<lambda>(n, url). LoadStarted n url) (zip [i ..< i + length batch] batch)
                   @ settled_part h loads ?o (timeout_of opts)
                       (sort_key (\<lambda>(n, url). settle_time (loads n) (timeout_of opts))
                          (zip [i ..< i + length batch] batch)))
           (batches us B 0))"
    by (simp only: loop batch_loop_batches run_batch_events)
  have blocks: "start_blocks (fst (loadAssetsBatch h loads us ?o))
       = map (\<lambda>(i, batch). length batch) (batches us B 0)"
    by (simp only: loop start_blocks_def batch_loop_start_blocks)
  have bound: "\<forall>m. length (in_flight (take m (fst (loadAssetsBatch h loads us ?o))))
            \<le> nat (getOptimalBatchSize B)"
    by (simp only: loop batch_loop_in_flight) simp
  have reached: "in_flight (take (min (nat (getOptimalBatchSize B)) (length us))
                  (fst (loadAssetsBatch h loads us ?o)))
       = [0 ..< min (nat (getOptimalBatchSize B)) (length us)]"
    by (simp only: loop batch_loop_in_flight_reached)
  let ?five = "[''x.jpg'', ''x.jpg'', ''x.jpg'', ''x.jpg'', ''x.jpg'']"
  let ?ro = "ropts\<lparr>batchSize := Some 5, strategy := None\<rparr>"
  have prep: "prepareResourcesForLoading
          (Many [Str ''x.jpg'', Str ''x.jpg'', Str ''x.jpg'', Str ''x.jpg'', Str ''x.jpg'']) = ?five"
    by code_simp
  have sizes: "map (\<lambda>(i, batch). length batch) (batches ?five 5 0) = [2, 2, 1]"
    by (simp add: batches_unfold batches_done slice_def getOptimalBatchSize_def)
  have imm: "strategy ?ro \<noteq> Some Idle" by simp
  have po: "(case batchSize (passed_options ?ro) of None \<Rightarrow> 1 | Some b \<Rightarrow> b) = 5"
    by (simp add: passed_options_def)
  have five: "start_blocks (new_events st (fst (loadResources h loads
          (Many [Str ''x.jpg'', Str ''x.jpg'', Str ''x.jpg'', Str ''x.jpg'', Str ''x.jpg''])
          ?ro st))) = [2, 2, 1]"
    by (simp only: loadResources_immediate[OF imm] new_events_emit prep loadAssetsBatch_loop po
        start_blocks_def batch_loop_start_blocks sizes)
  from getOptimalBatchSize_eq cat nth len run blocks bound reached five show ?thesis
    by (intro conjI)
qed

theorem batch_partition_witness:
  "(1::nat) < length (batches [''a.jpg'', ''b.jpg'', ''c.jpg''] 2 0)
   \<and> batches [''a.jpg'', ''b.jpg'', ''c.jpg''] 2 0 ! 1 = (2, [''c.jpg''])
   \<and> start_blocks (fst (loadAssetsBatch
            \<lparr>has_requestIdleCallback = True, has_AbortController = True\<rparr> (\<lambda>n. Resolves 10)
            [''a.jpg'', ''b.jpg'', ''c.jpg'']
            \<lparr>batchSize = Some 2, timeout = None, onError = None\<rparr>)) = [2, 1]"
proof -
  let ?us = "[''a.jpg'', ''b.jpg'', ''c.jpg'']"
  let ?o = "\<lparr>batchSize = Some 2, timeout = None, onError = None\<rparr>"
  let ?h = "\<lparr>has_requestIdleCallback = True, has_AbortController = True\<rparr>"
  let ?loads = "\<lambda>n::nat. Resolves 10"
  have len: "length (batches ?us 2 0) = 2"
    by (simp add: batches_unfold batches_done getOptimalBatchSize_def)
  have sizes: "map (\<lambda>(i, batch). length batch) (batches ?us 2 0) = [2, 1]"
    by (simp add: batches_unfold batches_done slice_def getOptimalBatchSize_def)
  have k: "nat (getOptimalBatchSize 2) = 2" by (simp add: getOptimalBatchSize_def)
  note all = batch_partition[of 2 ?us ?h ?loads ?o]
  from all[THEN conjunct2, THEN conjunct2, THEN conjunct1] have "\<forall>j < length (batches ?us 2 0).
          batches ?us 2 0 ! j =
            (j * nat (getOptimalBatchSize 2),
             take (nat (getOptimalBatchSize 2)) (drop (j * nat (getOptimalBatchSize 2)) ?us))" .
  then have "batches ?us 2 0 ! 1 =
            (1 * nat (getOptimalBatchSize 2),
             take (nat (getOptimalBatchSize 2)) (drop (1 * nat (getOptimalBatchSize 2)) ?us))"
    using len by simp
  then have nth: "batches ?us 2 0 ! 1 = (2, [''c.jpg''])" by (simp add: k)
  from all[THEN conjunct2, THEN conjunct2, THEN conjunct2, THEN conjunct2, THEN conjunct2, THEN conjunct1]
  have "start_blocks (fst (loadAssetsBatch ?h ?loads ?us (?o\<lparr>batchSize := Some 2\<rparr>)))
       = map (\<lambda>(i, batch). length batch) (batches ?us 2 0)" .
  then have blocks: "start_blocks (fst (loadAssetsBatch ?h ?loads ?us ?o)) = [2, 1]"
    by (simp add: sizes)
  from len nth blocks show ?thesis by simp
qed

subsection \<open>C5: batches run strictly one after another\<close>

text \<open>
  C5. In the events of one \<^verbatim>\<open>loadAssetsBatch\<close> invocation, whenever load \<open>m\<close> is
  started, every load \<open>n\<close> of an earlier batch has already settled. Every load of the
  list is started and settles with the outcome of its own race, whatever the other loads
  do; the loads are started in list order, each once; and the invocation ends fulfilled.
\<close>

theorem chunks_run_in_sequence:
  "(fst (loadAssetsBatch h loads us opts) = pre @ LoadStarted m u # post
      \<and> n < length us \<and> n div batch_size_of opts < m div batch_size_of opts
      \<longrightarrow> (\<exists>r. LoadSettled n r \<in> set pre))
   \<and> (n < length us \<longrightarrow>
        LoadStarted n (us ! n) \<in> set (fst (loadAssetsBatch h loads us opts))
        \<and> LoadSettled n (promise_race (has_AbortController h) (loads n) (timeout_of opts) (us ! n))
             \<in> set (fst (loadAssetsBatch h loads us opts)))
   \<and> filter is_start (fst (loadAssetsBatch h loads us opts))
       = map (\<lambda>(n, url). LoadStarted n url) (zip [0 ..< length us] us)
   \<and> snd (loadAssetsBatch h loads us opts) = Inr ()"
proof -
  let ?B = "case batchSize opts of None \<Rightarrow> 1 | Some b \<Rightarrow> b"
  let ?k = "nat (getOptimalBatchSize ?B)"
  have k: "batch_size_of opts = ?k" by (simp add: batch_size_of_def)
  have barrier: "\<exists>r. LoadSettled n r \<in> set pre"
    if tr: "fst (loadAssetsBatch h loads us opts) = pre @ LoadStarted m u # post"
      and n: "n < length us" and lt: "n div batch_size_of opts < m div batch_size_of opts"
  proof -
    have pos: "0 < ?k" by (rule getOptimalBatchSize_pos)
    from div_boundary[OF pos] lt have b: "n < 0 + (m div ?k) * ?k" "0 + (m div ?k) * ?k \<le> m"
      by (simp_all add: k)
    from tr have tr': "fst (batch_loop h loads us opts (timeout_of opts) ?B 0) = pre @ LoadStarted m u # post"
      by (simp add: loadAssetsBatch_loop)
    show ?thesis by (rule batch_loop_barrier[OF tr' _ n b]) simp
  qed
  have every: "LoadStarted n (us ! n) \<in> set (fst (loadAssetsBatch h loads us opts))
        \<and> LoadSettled n (promise_race (has_AbortController h) (loads n) (timeout_of opts) (us ! n))
             \<in> set (fst (loadAssetsBatch h loads us opts))" if "n < length us"
    using batch_loop_every_load[of 0 n us h loads opts "timeout_of opts" ?B] that
    by (simp add: loadAssetsBatch_loop)
  have starts: "filter is_start (fst (loadAssetsBatch h loads us opts))
       = map (\<lambda>(n, url). LoadStarted n url) (zip [0 ..< length us] us)"
    by (simp add: loadAssetsBatch_loop batch_loop_filter_start)
  have res: "snd (loadAssetsBatch h loads us opts) = Inr ()"
    by (simp add: loadAssetsBatch_loop batch_loop_result)
  from barrier every starts res show ?thesis by blast
qed

theorem chunks_run_in_sequence_witness:
  "fst (loadAssetsBatch \<lparr>has_requestIdleCallback = True, has_AbortController = True\<rparr>
          (\<lambda>n. if n = 0 then Rejects 5 (JsError ''Failed to load img: a.jpg'') else Resolves 3)
          [''a.jpg'', ''b.jpg'', ''c.jpg'']
          \<lparr>batchSize = Some 2, timeout = None, onError = None\<rparr>)
     = [LoadStarted 0 ''a.jpg'', LoadStarted 1 ''b.jpg'', LoadSettled 1 (Inr ()),
        WarnLoadFailed ''a.jpg'' (JsError ''Failed to load img: a.jpg''),
        LoadSettled 0 (Inl (JsError ''Failed to load img: a.jpg''))]
       @ LoadStarted 2 ''c.jpg'' # [LoadSettled 2 (Inr ())]
   \<and> (0::nat) < length [''a.jpg'', ''b.jpg'', ''c.jpg'']
   \<and> (0::nat) div batch_size_of \<lparr>batchSize = Some 2, timeout = None, onError = None\<rparr>
       < 2 div batch_size_of \<lparr>batchSize = Some 2, timeout = None, onError = None\<rparr>
   \<and> (\<exists>r. LoadSettled 0 r \<in> set [LoadStarted 0 ''a.jpg'', LoadStarted 1 ''b.jpg'', LoadSettled 1 (Inr ()),
        WarnLoadFailed ''a.jpg'' (JsError ''Failed to load img: a.jpg''),
        LoadSettled 0 (Inl (JsError ''Failed to load img: a.jpg''))])
   \<and> LoadStarted 2 ''c.jpg'' \<in> set (fst (loadAssetsBatch \<lparr>has_requestIdleCallback = True, has_AbortController = True\<rparr>
          (\<lambda>n. if n = 0 then Rejects 5 (JsError ''Failed to load img: a.jpg'') else Resolves 3)
          [''a.jpg'', ''b.jpg'', ''c.jpg'']
          \<lparr>batchSize = Some 2, timeout = None, onError = None\<rparr>))"
proof -
  let ?h = "\<lparr>has_requestIdleCallback = True, has_AbortController = True\<rparr>"
  let ?loads = "\<lambda>n::nat. if n = 0 then Rejects 5 (JsError ''Failed to load img: a.jpg'') else Resolves 3"
  let ?us = "[''a.jpg'', ''b.jpg'', ''c.jpg'']"
  let ?opts = "\<lparr>batchSize = Some 2, timeout = None, onError = None\<rparr>"
  let ?pre = "[LoadStarted 0 ''a.jpg'', LoadStarted 1 ''b.jpg'', LoadSettled 1 (Inr ()),
        WarnLoadFailed ''a.jpg'' (JsError ''Failed to load img: a.jpg''),
        LoadSettled 0 (Inl (JsError ''Failed to load img: a.jpg''))]"
  have tr: "fst (loadAssetsBatch ?h ?loads ?us ?opts) = ?pre @ LoadStarted 2 ''c.jpg'' # [LoadSettled 2 (Inr ())]"
    by (simp add: loadAssetsBatch_loop timeout_of_def batch_loop_unfold batch_loop_done
        getOptimalBatchSize_def run_batch_events settled_part_def settle_time_def
        loadSingleAsset_settle_events promise_race_def in_time_def timer_delay_def handleError_events)
  have n: "(0::nat) < length ?us" by simp
  have lt: "(0::nat) div batch_size_of ?opts < 2 div batch_size_of ?opts"
    by (simp add: batch_size_of_def getOptimalBatchSize_def)
  have two: "(2::nat) < length ?us" by simp
  from chunks_run_in_sequence[of ?h ?loads ?us ?opts ?pre 2 "''c.jpg''" "[LoadSettled 2 (Inr ())]" 0] tr n lt
  have a: "\<exists>r. LoadSettled 0 r \<in> set ?pre" by blast
  from chunks_run_in_sequence[of ?h ?loads ?us ?opts ?pre 2 "''c.jpg''" "[LoadSettled 2 (Inr ())]" 2] two
  have b: "LoadStarted 2 ''c.jpg'' \<in> set (fst (loadAssetsBatch ?h ?loads ?us ?opts))" by simp
  from tr n lt a b show ?thesis by blast
qed

subsection \<open>C6: only valid descriptors are loaded\<close>

text \<open>
  C6. Every valid descriptor is to have its load attempted. \<^verbatim>\<open>resolveResourceUrl\<close>
  drops every string that contains \<^verbatim>\<open>://\<close> and does not begin with \<^verbatim>\<open>http://\<close> or
  \<^verbatim>\<open>https://\<close>. The comment on that test speaks of absolute URLs, but the test does not
  look at where \<^verbatim>\<open>://\<close> stands, so it also drops the root-relative path
  \<^verbatim>\<open>/redirect?to=https://example.com/a.jpg\<close>, which uses no dangerous scheme and stays
  within the restricted character set. Of the list \<^verbatim>\<open>a.jpg\<close>,
  \<^verbatim>\<open>/redirect?to=https://example.com/a.jpg\<close>, \<^verbatim>\<open>javascript:alert(1)\<close>, with two
  valid descriptors and one invalid, the immediate strategy attempts a single load.
\<close>

theorem valid_root_relative_path_is_dropped:
  "spec_valid_descriptor ''a.jpg''
   \<and> spec_valid_descriptor ''/redirect?to=https://example.com/a.jpg''
   \<and> \<not> spec_valid_descriptor ''javascript:alert(1)''
   \<and> resolveResourceUrl (Str ''/redirect?to=https://example.com/a.jpg'') = None
   \<and> prepareResourcesForLoading
         (Many [Str ''a.jpg'', Str ''/redirect?to=https://example.com/a.jpg'', Str ''javascript:alert(1)''])
       = [''a.jpg'']
   \<and> new_events initial (fst (loadResources
          \<lparr>has_requestIdleCallback = True, has_AbortController = True\<rparr> (\<lambda>n. Resolves 10)
          (Many [Str ''a.jpg'', Str ''/redirect?to=https://example.com/a.jpg'', Str ''javascript:alert(1)''])
          \<lparr>batchSize = None, timeout = None, onError = Some (\<lambda>url error. Returns), strategy = None\<rparr>
          initial))
       = [LoadStarted 0 ''a.jpg'', LoadSettled 0 (Inr ())]"
proof -
  have v: "spec_valid_descriptor ''a.jpg''
     \<and> spec_valid_descriptor ''/redirect?to=https://example.com/a.jpg''
     \<and> \<not> spec_valid_descriptor ''javascript:alert(1)''
     \<and> resolveResourceUrl (Str ''/redirect?to=https://example.com/a.jpg'') = None"
    by code_simp
  have p: "prepareResourcesForLoading
         (Many [Str ''a.jpg'', Str ''/redirect?to=https://example.com/a.jpg'', Str ''javascript:alert(1)''])
       = [''a.jpg'']"
    by code_simp
  have i: "strategy \<lparr>batchSize = None, timeout = None, onError = Some (\<lambda>url error. Returns), strategy = None\<rparr>
            \<noteq> Some Idle" by simp
  have s: "new_events initial (fst (loadResources
          \<lparr>has_requestIdleCallback = True, has_AbortController = True\<rparr> (\<lambda>n. Resolves 10)
          (Many [Str ''a.jpg'', Str ''/redirect?to=https://example.com/a.jpg'', Str ''javascript:alert(1)''])
          \<lparr>batchSize = None, timeout = None, onError = Some (\<lambda>url error. Returns), strategy = None\<rparr>
          initial))
       = [LoadStarted 0 ''a.jpg'', LoadSettled 0 (Inr ())]"
    unfolding loadResources_immediate[OF i] new_events_emit p
    by (simp add: loadAssetsBatch_loop timeout_of_def passed_options_def batch_loop_unfold batch_loop_done
        getOptimalBatchSize_def run_batch_events settled_part_def settle_time_def
        loadSingleAsset_settle_events promise_race_def in_time_def timer_delay_def handleError_events)
  from v p s show ?thesis by (intro conjI) simp_all
qed

subsection \<open>C7: the error reporter\<close>

text \<open>
  C7. Every failure handed to \<^verbatim>\<open>handleError\<close> is first logged, whatever the options;
  then the caller's \<^verbatim>\<open>onError\<close>, when there is one, is called with the URL and the
  error; an exception thrown by that callback is caught and logged, and \<^verbatim>\<open>handleError\<close>
  returns normally. So the callback's exception changes neither the outcome of the load
  that failed (it still rejects with its own error) nor the detached chain of an idle
  launch (it ends fulfilled).
\<close>

theorem handleError_isolates_callback:
  "handleError error url userCallback =
     (WarnLoadFailed url error #
        (case userCallback of
           None \<Rightarrow> []
         | Some cb \<Rightarrow> OnErrorCalled url error #
             (case cb url error of Returns \<Rightarrow> [] | Throws thrown \<Rightarrow> [WarnCallbackError thrown])),
      Inr ())
   \<and> snd (loadSingleAsset_settle controller loadPromise url timeout_ms opts)
       = promise_race controller loadPromise timeout_ms url
   \<and> snd (idle_dispatch controller loadPromise url opts) = Inr ()"
  by (simp add: handleError_events loadSingleAsset_settle_result idle_dispatch_result)

subsection \<open>C8: at most one slot is pending\<close>

text \<open>
  C8. After any sequence of calls, idle callbacks, timers and passing time, at most one
  slot (idle callback or fallback timer) is pending, and one is pending exactly when the
  flag is set. In the whole trace every slot request comes directly after the assignment
  that sets the flag; \<^verbatim>\<open>scheduleIdleWork\<close> does nothing while the flag is set; and every
  run of the slot's callback, on whichever path it leaves (hidden page, no candidate,
  launches, or an exception caught by the callback), clears the flag exactly once.
\<close>

theorem one_slot_at_a_time:
  "pending_slots (run h evs) \<le> 1
   \<and> pending_slots (run h evs) = (if isIdleProcessing (run h evs) then 1 else 0)
   \<and> guarded_requests None (events (run h evs))
   \<and> (isIdleProcessing st \<longrightarrow> scheduleIdleWork h st = st)
   \<and> count_list (new_events st (idle_callback h document_hidden deadline st)) (FlagWrite False) = 1"
proof -
  have inv: "pending_slots (run h evs) = (if isIdleProcessing (run h evs) then 1 else 0)"
    using run_invariant[of h evs] by (simp add: slot_invariant_def)
  then have le: "pending_slots (run h evs) \<le> 1" by simp
  have guard: "isIdleProcessing st \<longrightarrow> scheduleIdleWork h st = st"
    by (simp add: scheduleIdleWork_def)
  from le inv run_guarded guard idle_callback_clears_once show ?thesis by blast
qed

theorem one_slot_at_a_time_witness:
  "isIdleProcessing \<lparr>idleQueue = [\<lparr>urls = [''a.jpg''], options = \<lparr>batchSize = Some 1, timeout = None, onError = None\<rparr>\<rparr>],
                     isIdleProcessing = True, idleCallbacks = 1, timers = [], clock = 0, events = []\<rparr>
   \<and> scheduleIdleWork \<lparr>has_requestIdleCallback = True, has_AbortController = True\<rparr>
        \<lparr>idleQueue = [\<lparr>urls = [''a.jpg''], options = \<lparr>batchSize = Some 1, timeout = None, onError = None\<rparr>\<rparr>],
         isIdleProcessing = True, idleCallbacks = 1, timers = [], clock = 0, events = []\<rparr>
       = \<lparr>idleQueue = [\<lparr>urls = [''a.jpg''], options = \<lparr>batchSize = Some 1, timeout = None, onError = None\<rparr>\<rparr>],
          isIdleProcessing = True, idleCallbacks = 1, timers = [], clock = 0, events = []\<rparr>
   \<and> isIdleProcessing (run \<lparr>has_requestIdleCallback = True, has_AbortController = True\<rparr>
        [Call (\<lambda>n. Resolves 0) (Single (Str ''a.jpg''))
           \<lparr>batchSize = None, timeout = None, onError = None, strategy = Some Idle\<rparr>,
         Call (\<lambda>n. Resolves 0) (Single (Str ''b.jpg''))
           \<lparr>batchSize = None, timeout = None, onError = None, strategy = Some Idle\<rparr>])
   \<and> pending_slots (run \<lparr>has_requestIdleCallback = True, has_AbortController = True\<rparr>
        [Call (\<lambda>n. Resolves 0) (Single (Str ''a.jpg''))
           \<lparr>batchSize = None, timeout = None, onError = None, strategy = Some Idle\<rparr>,
         Call (\<lambda>n. Resolves 0) (Single (Str ''b.jpg''))
           \<lparr>batchSize = None, timeout = None, onError = None, strategy = Some Idle\<rparr>]) = 1"
proof -
  let ?h = "\<lparr>has_requestIdleCallback = True, has_AbortController = True\<rparr>"
  let ?evs = "[Call (\<lambda>n. Resolves 0) (Single (Str ''a.jpg''))
           \<lparr>batchSize = None, timeout = None, onError = None, strategy = Some Idle\<rparr>,
         Call (\<lambda>n. Resolves 0) (Single (Str ''b.jpg''))
           \<lparr>batchSize = None, timeout = None, onError = None, strategy = Some Idle\<rparr>]"
  let ?st = "\<lparr>idleQueue = [\<lparr>urls = [''a.jpg''], options = \<lparr>batchSize = Some 1, timeout = None, onError = None\<rparr>\<rparr>],
              isIdleProcessing = True, idleCallbacks = 1, timers = [], clock = 0, events = []\<rparr>"
  have flag: "isIdleProcessing (run ?h ?evs)" by code_simp
  have h: "isIdleProcessing ?st" by simp
  note inst = one_slot_at_a_time[of ?h ?evs ?st]
  from inst h have a: "scheduleIdleWork ?h ?st = ?st" by blast
  from inst have "pending_slots (run ?h ?evs) = (if isIdleProcessing (run ?h ?evs) then 1 else 0)"
    by blast
  with flag have b: "pending_slots (run ?h ?evs) = 1" by simp
  from h a flag b show ?thesis by blast
qed

subsection \<open>C9: the hidden page\<close>

text \<open>
  C9, as the code has it. A processing cycle that finds the page hidden changes three
  things only: it clears the flag, sets a timer of 1000 ms for \<^verbatim>\<open>scheduleIdleWork\<close>, and
  records these two events; no load is started, the queue is untouched and no slot is
  requested. A backoff timer cannot run before it is due; when it runs it is
  \<^verbatim>\<open>scheduleIdleWork\<close>, which requests nothing when the queue is empty. Timers are
  never cancelled, so after the cycle the pending timers are the one just set and those
  that earlier hidden cycles have left. As long as none of them is due, and nobody calls
  \<^verbatim>\<open>loadResources\<close> meanwhile, nothing but the clock changes after the cycle; and when
  the queue is empty no event is recorded at all until the next call, whichever timers
  fire. The state in which a cycle runs has no slot pending, in every run: the slot that
  started the cycle was the only one.
\<close>

theorem hidden_page_defers:
  "processIdleQueue h (Some True) deadline st =
     (st\<lparr>isIdleProcessing := False,
         timers := timers st @ [(clock st + 1000, Reschedule)],
         events := events st @ [FlagWrite False, TimerSet 1000 Reschedule]\<rparr>, Inr ())
   \<and> (k < length (timers waiting) \<and> snd (timers waiting ! k) = Reschedule \<longrightarrow>
        host_step h waiting (TimerFires k hid) =
          (if fst (timers waiting ! k) \<le> clock waiting
           then scheduleIdleWork h (waiting\<lparr>timers := remove_nth k (timers waiting)\<rparr>) else waiting))
   \<and> (idleQueue drained = [] \<longrightarrow> scheduleIdleWork h drained = drained)
   \<and> (pending_slots st = 0 \<and> list_all no_call evs
        \<and> list_all (\<lambda>(due, callback).
              clock (foldl (host_step h) (fst (processIdleQueue h (Some True) deadline st)) evs) < due)
            (timers (fst (processIdleQueue h (Some True) deadline st)))
       \<longrightarrow> foldl (host_step h) (fst (processIdleQueue h (Some True) deadline st)) evs
           = (fst (processIdleQueue h (Some True) deadline st))
               \<lparr>clock := clock (foldl (host_step h) (fst (processIdleQueue h (Some True) deadline st)) evs)\<rparr>)
   \<and> (pending_slots vacant = 0 \<and> idleQueue vacant = [] \<and> list_all no_call evs'
       \<longrightarrow> new_events (fst (processIdleQueue h (Some True) deadline vacant))
             (foldl (host_step h) (fst (processIdleQueue h (Some True) deadline vacant)) evs') = [])
   \<and> (idleCallbacks (run h before) \<noteq> 0 \<longrightarrow>
        pending_slots ((run h before)\<lparr>idleCallbacks := idleCallbacks (run h before) - 1\<rparr>) = 0)
   \<and> (j < length (timers (run fb before')) \<and> snd (timers (run fb before') ! j) = FallbackIdle \<longrightarrow>
        pending_slots ((run fb before')\<lparr>timers := remove_nth j (timers (run fb before'))\<rparr>) = 0)"
proof -
  have c1: "processIdleQueue h (Some True) deadline st =
     (st\<lparr>isIdleProcessing := False,
         timers := timers st @ [(clock st + 1000, Reschedule)],
         events := events st @ [FlagWrite False, TimerSet 1000 Reschedule]\<rparr>, Inr ())"
    by (rule processIdleQueue_hidden)
  have c2: "k < length (timers waiting) \<and> snd (timers waiting ! k) = Reschedule \<longrightarrow>
        host_step h waiting (TimerFires k hid) =
          (if fst (timers waiting ! k) \<le> clock waiting
           then scheduleIdleWork h (waiting\<lparr>timers := remove_nth k (timers waiting)\<rparr>) else waiting)"
    by (simp add: Let_def)
  have c3: "idleQueue drained = [] \<longrightarrow> scheduleIdleWork h drained = drained"
    by (simp add: scheduleIdleWork_def)
  have c4: "pending_slots st = 0 \<and> list_all no_call evs
        \<and> list_all (\<lambda>(due, callback).
              clock (foldl (host_step h) (fst (processIdleQueue h (Some True) deadline st)) evs) < due)
            (timers (fst (processIdleQueue h (Some True) deadline st)))
       \<longrightarrow> foldl (host_step h) (fst (processIdleQueue h (Some True) deadline st)) evs
           = (fst (processIdleQueue h (Some True) deadline st))
               \<lparr>clock := clock (foldl (host_step h) (fst (processIdleQueue h (Some True) deadline st)) evs)\<rparr>"
  proof (intro impI, elim conjE)
    assume "pending_slots st = 0" "list_all no_call evs"
      "list_all (\<lambda>(due, callback).
              clock (foldl (host_step h) (fst (processIdleQueue h (Some True) deadline st)) evs) < due)
            (timers (fst (processIdleQueue h (Some True) deadline st)))"
    then show "foldl (host_step h) (fst (processIdleQueue h (Some True) deadline st)) evs
           = (fst (processIdleQueue h (Some True) deadline st))
               \<lparr>clock := clock (foldl (host_step h) (fst (processIdleQueue h (Some True) deadline st)) evs)\<rparr>"
      by (rule backoff_quiet)
  qed
  have c5: "pending_slots vacant = 0 \<and> idleQueue vacant = [] \<and> list_all no_call evs'
       \<longrightarrow> new_events (fst (processIdleQueue h (Some True) deadline vacant))
             (foldl (host_step h) (fst (processIdleQueue h (Some True) deadline vacant)) evs') = []"
  proof (intro impI, elim conjE)
    assume a: "pending_slots vacant = 0" "idleQueue vacant = []" "list_all no_call evs'"
    let ?s = "fst (processIdleQueue h (Some True) deadline vacant)"
    have "idleQueue ?s = []" "pending_slots ?s = 0"
      using a(1,2) by (simp_all add: processIdleQueue_hidden pending_slots_def)
    from empty_queue_quiet[OF this a(3), of h]
    show "new_events ?s (foldl (host_step h) ?s evs') = []" by (simp add: new_events_def)
  qed
  have c6: "idleCallbacks (run h before) \<noteq> 0 \<longrightarrow>
        pending_slots ((run h before)\<lparr>idleCallbacks := idleCallbacks (run h before) - 1\<rparr>) = 0"
    using cycle_state_no_slot[of h before] by (intro impI)
  have c7: "j < length (timers (run fb before')) \<and> snd (timers (run fb before') ! j) = FallbackIdle \<longrightarrow>
        pending_slots ((run fb before')\<lparr>timers := remove_nth j (timers (run fb before'))\<rparr>) = 0"
    using fallback_cycle_state_no_slot[of j fb before'] by (intro impI, elim conjE)
  from c1 c2 c3 c4 c5 c6 c7 show ?thesis by (intro conjI)
qed

theorem hidden_page_defers_witness:
  "0 < length (timers \<lparr>idleQueue = [\<lparr>urls = [''a.jpg''], options = \<lparr>batchSize = Some 1, timeout = None, onError = None\<rparr>\<rparr>],
          isIdleProcessing = False, idleCallbacks = 0, timers = [(1000, Reschedule)],
          clock = 1000, events = []\<rparr>)
   \<and> snd (timers \<lparr>idleQueue = [\<lparr>urls = [''a.jpg''], options = \<lparr>batchSize = Some 1, timeout = None, onError = None\<rparr>\<rparr>],
          isIdleProcessing = False, idleCallbacks = 0, timers = [(1000, Reschedule)],
          clock = 1000, events = []\<rparr> ! 0) = Reschedule
   \<and> host_step browser_host
         \<lparr>idleQueue = [\<lparr>urls = [''a.jpg''], options = \<lparr>batchSize = Some 1, timeout = None, onError = None\<rparr>\<rparr>],
          isIdleProcessing = False, idleCallbacks = 0, timers = [(1000, Reschedule)],
          clock = 1000, events = []\<rparr>
         (TimerFires 0 (Some True))
       = \<lparr>idleQueue = [\<lparr>urls = [''a.jpg''], options = \<lparr>batchSize = Some 1, timeout = None, onError = None\<rparr>\<rparr>],
          isIdleProcessing = True, idleCallbacks = 1, timers = [],
          clock = 1000, events = [FlagWrite True, IdleCallbackRequested]\<rparr>
   \<and> idleQueue initial = []
   \<and> scheduleIdleWork browser_host initial = initial
   \<and> pending_slots
         ((run browser_host [idle_call ''a.jpg'', hidden_cycle, TimePasses 900, idle_call ''b.jpg''])
              \<lparr>idleCallbacks := idleCallbacks (run browser_host [idle_call ''a.jpg'', hidden_cycle, TimePasses 900, idle_call ''b.jpg'']) - 1\<rparr>) = 0
   \<and> list_all no_call [TimePasses 50, TimerFires 0 (Some True), IdleCallbackFires (Some False) (Inr 50)]
   \<and> list_all (\<lambda>(due, callback).
         clock (foldl (host_step browser_host)
           (fst (processIdleQueue browser_host (Some True) (Inr 50)
             ((run browser_host [idle_call ''a.jpg'', hidden_cycle, TimePasses 900, idle_call ''b.jpg''])
              \<lparr>idleCallbacks := idleCallbacks (run browser_host [idle_call ''a.jpg'', hidden_cycle, TimePasses 900, idle_call ''b.jpg'']) - 1\<rparr>)))
           [TimePasses 50, TimerFires 0 (Some True), IdleCallbackFires (Some False) (Inr 50)]) < due)
       (timers
           (fst (processIdleQueue browser_host (Some True) (Inr 50)
             ((run browser_host [idle_call ''a.jpg'', hidden_cycle, TimePasses 900, idle_call ''b.jpg''])
              \<lparr>idleCallbacks := idleCallbacks (run browser_host [idle_call ''a.jpg'', hidden_cycle, TimePasses 900, idle_call ''b.jpg'']) - 1\<rparr>))))
   \<and> foldl (host_step browser_host)
           (fst (processIdleQueue browser_host (Some True) (Inr 50)
             ((run browser_host [idle_call ''a.jpg'', hidden_cycle, TimePasses 900, idle_call ''b.jpg''])
              \<lparr>idleCallbacks := idleCallbacks (run browser_host [idle_call ''a.jpg'', hidden_cycle, TimePasses 900, idle_call ''b.jpg'']) - 1\<rparr>)))
           [TimePasses 50, TimerFires 0 (Some True), IdleCallbackFires (Some False) (Inr 50)]
       = \<lparr>idleQueue = [\<lparr>urls = [''a.jpg''], options = \<lparr>batchSize = Some 1, timeout = None, onError = None\<rparr>\<rparr>,
                       \<lparr>urls = [''b.jpg''], options = \<lparr>batchSize = Some 1, timeout = None, onError = None\<rparr>\<rparr>],
          isIdleProcessing = False, idleCallbacks = 0,
          timers = [(1000, Reschedule), (1900, Reschedule)], clock = 950,
          events = [FlagWrite True, IdleCallbackRequested, FlagWrite False, TimerSet 1000 Reschedule,
                    FlagWrite True, IdleCallbackRequested, FlagWrite False, TimerSet 1000 Reschedule]\<rparr>
   \<and> pending_slots (initial\<lparr>isIdleProcessing := True\<rparr>) = 0
   \<and> idleQueue (initial\<lparr>isIdleProcessing := True\<rparr>) = []
   \<and> list_all no_call [TimePasses 1000, TimerFires 0 (Some False)]
   \<and> new_events (fst (processIdleQueue browser_host (Some True) (Inr 50) (initial\<lparr>isIdleProcessing := True\<rparr>)))
         (foldl (host_step browser_host) (fst (processIdleQueue browser_host (Some True) (Inr 50) (initial\<lparr>isIdleProcessing := True\<rparr>)))
            [TimePasses 1000, TimerFires 0 (Some False)]) = []
   \<and> idleCallbacks (run browser_host [idle_call ''a.jpg'', hidden_cycle, TimePasses 900, idle_call ''b.jpg'']) \<noteq> 0
   \<and> (0::nat) < length (timers (run \<lparr>has_requestIdleCallback = False, has_AbortController = True\<rparr> [idle_call ''a.jpg'']))
   \<and> snd (timers (run \<lparr>has_requestIdleCallback = False, has_AbortController = True\<rparr> [idle_call ''a.jpg'']) ! 0) = FallbackIdle
   \<and> pending_slots
         ((run \<lparr>has_requestIdleCallback = False, has_AbortController = True\<rparr> [idle_call ''a.jpg''])
            \<lparr>timers := remove_nth 0 (timers (run \<lparr>has_requestIdleCallback = False, has_AbortController = True\<rparr> [idle_call ''a.jpg'']))\<rparr>) = 0"
proof -
  let ?h = "\<lparr>has_requestIdleCallback = True, has_AbortController = True\<rparr>"
  let ?fb = "\<lparr>has_requestIdleCallback = False, has_AbortController = True\<rparr>"
  let ?pre = "[Call (\<lambda>n. Resolves 10) (Single (Str ''a.jpg'')) \<lparr>batchSize = None, timeout = None, onError = None, strategy = Some Idle\<rparr>,
      IdleCallbackFires (Some True) (Inr 50), TimePasses 900,
      Call (\<lambda>n. Resolves 10) (Single (Str ''b.jpg'')) \<lparr>batchSize = None, timeout = None, onError = None, strategy = Some Idle\<rparr>]"
  let ?pre1 = "[Call (\<lambda>n. Resolves 10) (Single (Str ''a.jpg'')) \<lparr>batchSize = None, timeout = None, onError = None, strategy = Some Idle\<rparr>]"
  let ?w = "\<lparr>idleQueue = [\<lparr>urls = [''a.jpg''], options = \<lparr>batchSize = Some 1, timeout = None, onError = None\<rparr>\<rparr>], isIdleProcessing = False, idleCallbacks = 0, timers = [(1000, Reschedule)], clock = 1000, events = []\<rparr>"
  let ?w2 = "\<lparr>idleQueue = [\<lparr>urls = [''a.jpg''], options = \<lparr>batchSize = Some 1, timeout = None, onError = None\<rparr>\<rparr>], isIdleProcessing = True, idleCallbacks = 1, timers = [], clock = 1000, events = [FlagWrite True, IdleCallbackRequested]\<rparr>"
  let ?s = "\<lparr>idleQueue = [\<lparr>urls = [''a.jpg''], options = \<lparr>batchSize = Some 1, timeout = None, onError = None\<rparr>\<rparr>, \<lparr>urls = [''b.jpg''], options = \<lparr>batchSize = Some 1, timeout = None, onError = None\<rparr>\<rparr>], isIdleProcessing = True, idleCallbacks = 0, timers = [(1000, Reschedule)], clock = 900, events = [FlagWrite True, IdleCallbackRequested, FlagWrite False, TimerSet 1000 Reschedule, FlagWrite True, IdleCallbackRequested]\<rparr>"
  let ?cyc = "\<lparr>idleQueue = [\<lparr>urls = [''a.jpg''], options = \<lparr>batchSize = Some 1, timeout = None, onError = None\<rparr>\<rparr>, \<lparr>urls = [''b.jpg''], options = \<lparr>batchSize = Some 1, timeout = None, onError = None\<rparr>\<rparr>], isIdleProcessing = False, idleCallbacks = 0, timers = [(1000, Reschedule), (1900, Reschedule)], clock = 900, events = [FlagWrite True, IdleCallbackRequested, FlagWrite False, TimerSet 1000 Reschedule, FlagWrite True, IdleCallbackRequested, FlagWrite False, TimerSet 1000 Reschedule]\<rparr>"
  let ?fin = "\<lparr>idleQueue = [\<lparr>urls = [''a.jpg''], options = \<lparr>batchSize = Some 1, timeout = None, onError = None\<rparr>\<rparr>, \<lparr>urls = [''b.jpg''], options = \<lparr>batchSize = Some 1, timeout = None, onError = None\<rparr>\<rparr>], isIdleProcessing = False, idleCallbacks = 0, timers = [(1000, Reschedule), (1900, Reschedule)], clock = 950, events = [FlagWrite True, IdleCallbackRequested, FlagWrite False, TimerSet 1000 Reschedule, FlagWrite True, IdleCallbackRequested, FlagWrite False, TimerSet 1000 Reschedule]\<rparr>"
  let ?evs = "[TimePasses 50, TimerFires 0 (Some True), IdleCallbackFires (Some False) (Inr 50)]"
  let ?v = "initial\<lparr>isIdleProcessing := True\<rparr>"
  let ?evs2 = "[TimePasses 1000, TimerFires 0 (Some False)]"
  have pa: "prepareResourcesForLoading (Single (Str ''a.jpg'')) = [''a.jpg'']" by code_simp
  have pb: "prepareResourcesForLoading (Single (Str ''b.jpg'')) = [''b.jpg'']" by code_simp
  have pre: "run ?h ?pre = \<lparr>idleQueue = [\<lparr>urls = [''a.jpg''], options = \<lparr>batchSize = Some 1, timeout = None, onError = None\<rparr>\<rparr>, \<lparr>urls = [''b.jpg''], options = \<lparr>batchSize = Some 1, timeout = None, onError = None\<rparr>\<rparr>], isIdleProcessing = True, idleCallbacks = 1, timers = [(1000, Reschedule)], clock = 900, events = [FlagWrite True, IdleCallbackRequested, FlagWrite False, TimerSet 1000 Reschedule, FlagWrite True, IdleCallbackRequested]\<rparr>"
    by (simp add: run_def initial_def loadResources_idle pa pb addIdleTask_def passed_options_def
        scheduleIdleWork_def set_flag_def requestIdleCallback_def setTimeout_def emit_def
        idle_callback_def processIdleQueue_hidden)
  have s: "(run ?h ?pre)\<lparr>idleCallbacks := idleCallbacks (run ?h ?pre) - 1\<rparr> = ?s"
    unfolding pre by simp
  have fbrun: "run ?fb ?pre1 = \<lparr>idleQueue = [\<lparr>urls = [''a.jpg''], options = \<lparr>batchSize = Some 1, timeout = None, onError = None\<rparr>\<rparr>], isIdleProcessing = True, idleCallbacks = 0,
        timers = [(50, FallbackIdle)], clock = 0, events = [FlagWrite True, TimerSet 50 FallbackIdle]\<rparr>"
    by (simp add: run_def initial_def loadResources_idle pa addIdleTask_def passed_options_def
        scheduleIdleWork_def set_flag_def requestIdleCallback_def setTimeout_def emit_def)
  note inst = hidden_page_defers[of ?h "Inr 50" ?s 0 ?w "Some True" initial ?evs ?v ?evs2 ?pre 0 ?fb ?pre1]
  have cyc: "fst (processIdleQueue ?h (Some True) (Inr 50) ?s) = ?cyc"
    using inst[THEN conjunct1] by simp
  have h1: "0 < length (timers ?w)" "snd (timers ?w ! 0) = Reschedule" by simp_all
  have h2: "idleQueue initial = []" by (simp add: initial_def)
  have h3: "pending_slots ?s = 0" "list_all no_call ?evs"
    by (simp_all add: pending_slots_def no_call_def)
  have clk: "clock (foldl (host_step ?h) ?cyc ?evs) = 950" by simp
  have h4: "list_all (\<lambda>(due, callback).
         clock (foldl (host_step ?h) (fst (processIdleQueue ?h (Some True) (Inr 50) ?s)) ?evs) < due)
       (timers (fst (processIdleQueue ?h (Some True) (Inr 50) ?s)))"
    unfolding cyc clk by simp
  have h5: "pending_slots ?v = 0" "idleQueue ?v = []" "list_all no_call ?evs2"
    by (simp_all add: pending_slots_def initial_def no_call_def)
  have h6: "idleCallbacks (run ?h ?pre) \<noteq> 0" unfolding pre by simp
  have h7: "(0::nat) < length (timers (run ?fb ?pre1))" "snd (timers (run ?fb ?pre1) ! 0) = FallbackIdle"
    unfolding fbrun by simp_all
  from inst[THEN conjunct2, THEN conjunct1] h1
  have a: "host_step ?h ?w (TimerFires 0 (Some True)) =
      (if fst (timers ?w ! 0) \<le> clock ?w then scheduleIdleWork ?h (?w\<lparr>timers := remove_nth 0 (timers ?w)\<rparr>) else ?w)"
    by (elim impE) (intro conjI)
  from inst[THEN conjunct2, THEN conjunct2, THEN conjunct1] h2
  have b: "scheduleIdleWork ?h initial = initial" by (elim impE)
  from inst[THEN conjunct2, THEN conjunct2, THEN conjunct2, THEN conjunct1] h3 h4
  have c: "foldl (host_step ?h) (fst (processIdleQueue ?h (Some True) (Inr 50) ?s)) ?evs
      = (fst (processIdleQueue ?h (Some True) (Inr 50) ?s))
          \<lparr>clock := clock (foldl (host_step ?h) (fst (processIdleQueue ?h (Some True) (Inr 50) ?s)) ?evs)\<rparr>"
    by (elim impE) (intro conjI)
  from inst[THEN conjunct2, THEN conjunct2, THEN conjunct2, THEN conjunct2, THEN conjunct1] h5
  have d: "new_events (fst (processIdleQueue ?h (Some True) (Inr 50) ?v))
         (foldl (host_step ?h) (fst (processIdleQueue ?h (Some True) (Inr 50) ?v)) ?evs2) = []"
    by (elim impE) (intro conjI)
  from inst[THEN conjunct2, THEN conjunct2, THEN conjunct2, THEN conjunct2, THEN conjunct2, THEN conjunct2] h7
  have e: "pending_slots ((run ?fb ?pre1)\<lparr>timers := remove_nth 0 (timers (run ?fb ?pre1))\<rparr>) = 0"
    by (elim impE) (intro conjI)
  have a': "host_step ?h ?w (TimerFires 0 (Some True)) = ?w2"
    unfolding a by (simp add: scheduleIdleWork_cases remove_nth_def)
  have c': "foldl (host_step ?h) (fst (processIdleQueue ?h (Some True) (Inr 50) ?s)) ?evs = ?fin"
    by (subst c, subst cyc, subst cyc, subst clk) simp
  from h1 a' h2 b h3 h4 c' h5 d h6 h7 e show ?thesis
    unfolding browser_host_def idle_call_def hidden_cycle_def s by (intro conjI)
qed

text \<open>
  C9 as stated (a new slot only after the fixed 1000 ms) fails in this run. A first
  hidden cycle at time 0 sets a timer due at 1000. A call of \<^verbatim>\<open>loadResources\<close> at
  900 requests a slot at once, and the cycle of that slot, still at 900, finds the page
  hidden again. Nobody calls \<^verbatim>\<open>loadResources\<close> after that; at 1000, 100 ms after the
  second hidden cycle, the timer of the first fires and requests a slot.
\<close>

theorem earlier_backoff_timer_ends_the_wait:
  "new_events (run browser_host [idle_call ''a.jpg''])
              (run browser_host [idle_call ''a.jpg'', hidden_cycle])
     = [FlagWrite False, TimerSet 1000 Reschedule]
   \<and> clock (run browser_host [idle_call ''a.jpg'', hidden_cycle]) = 0
   \<and> new_events (run browser_host [idle_call ''a.jpg'', hidden_cycle, TimePasses 900])
                (run browser_host [idle_call ''a.jpg'', hidden_cycle, TimePasses 900, idle_call ''b.jpg''])
     = [FlagWrite True, IdleCallbackRequested]
   \<and> idleCallbacks (run browser_host
         [idle_call ''a.jpg'', hidden_cycle, TimePasses 900, idle_call ''b.jpg'']) = 1
   \<and> new_events (run browser_host [idle_call ''a.jpg'', hidden_cycle, TimePasses 900, idle_call ''b.jpg''])
                (run browser_host
                   [idle_call ''a.jpg'', hidden_cycle, TimePasses 900, idle_call ''b.jpg'', hidden_cycle])
     = [FlagWrite False, TimerSet 1000 Reschedule]
   \<and> clock (run browser_host
         [idle_call ''a.jpg'', hidden_cycle, TimePasses 900, idle_call ''b.jpg'', hidden_cycle]) = 900
   \<and> list_all no_call [TimePasses 100, TimerFires 0 (Some True)]
   \<and> clock (run browser_host
         [idle_call ''a.jpg'', hidden_cycle, TimePasses 900, idle_call ''b.jpg'', hidden_cycle,
          TimePasses 100, TimerFires 0 (Some True)]) = 1000
   \<and> new_events (run browser_host
                   [idle_call ''a.jpg'', hidden_cycle, TimePasses 900, idle_call ''b.jpg'', hidden_cycle])
                (run browser_host
                   [idle_call ''a.jpg'', hidden_cycle, TimePasses 900, idle_call ''b.jpg'', hidden_cycle,
                    TimePasses 100, TimerFires 0 (Some True)])
     = [FlagWrite True, IdleCallbackRequested]"
proof -
  have pa: "prepareResourcesForLoading (Single (Str ''a.jpg'')) = [''a.jpg'']" by code_simp
  have pb: "prepareResourcesForLoading (Single (Str ''b.jpg'')) = [''b.jpg'']" by code_simp
  show ?thesis
    by (simp add: browser_host_def idle_call_def hidden_cycle_def
        run_def initial_def loadResources_idle pa pb addIdleTask_def passed_options_def
        scheduleIdleWork_def set_flag_def requestIdleCallback_def setTimeout_def emit_def
        idle_callback_def processIdleQueue_hidden new_events_def no_call_def remove_nth_def)
qed

subsection \<open>C10: entries are trimmed before validation\<close>



end
